theory Spec2Isabelle
  imports Main "HOL-Library.Multiset"
begin

section \<open>Python values used by the iterators\<close>

text \<open>
  The two built-in exceptions that the subscript expressions of the source can raise, and
  \<open>ExhaustedIterator\<close>, the error kind of the specification; no statement of the source
  raises the latter.
\<close>

datatype py_error = IndexError | KeyError | ExhaustedIterator

text \<open>
  \<open>xs[i]\<close> on a Python list: an index from \<open>-len\<close> up to \<open>len - 1\<close> is accepted,
  a negative one counts from the end, any other raises \<open>IndexError\<close>. The cursors of the
  iterators are Python integers, so they are of type \<open>int\<close> here.
\<close>

definition list_getitem :: "'a list \<Rightarrow> int \<Rightarrow> py_error + 'a" where
  "list_getitem xs i =
     (let n = int (length xs) in
      if 0 \<le> i \<and> i < n then Inr (xs ! nat i)
      else if - n \<le> i \<and> i < 0 then Inr (xs ! nat (n + i))
      else Inl IndexError)"

text \<open>
  A \<open>dict\<close> keeps its keys in insertion order, so it is an association list; \<open>d[k]\<close>
  raises \<open>KeyError\<close> for an absent key, and \<open>list(d.keys())\<close> is a new list of the keys
  in insertion order. The keys of a \<open>dict\<close> are distinct; the theorems that need it assume
  \<open>distinct (map fst d)\<close>.
\<close>

type_synonym attractions_dict = "(string \<times> string list) list"

definition dict_getitem :: "('k \<times> 'v) list \<Rightarrow> 'k \<Rightarrow> py_error + 'v" where
  "dict_getitem d k = (case map_of d k of None \<Rightarrow> Inl KeyError | Some v \<Rightarrow> Inr v)"

definition dict_keys :: "('k \<times> 'v) list \<Rightarrow> 'k list" where
  "dict_keys d = map fst d"

section \<open>The store of shared containers\<close>

text \<open>
  The dictionary of a collection is shared by reference with every iterator made from it
  (\<open>self._attractions = attractions\<close>), and \<open>random.shuffle\<close> permutes a list in place.
  Dictionaries and lists therefore live in a store and are named by references; the
  counters give the next unused reference of each kind. The lists of exhibits are values
  inside their dictionary: no statement of the source assigns to one.
\<close>

type_synonym ref = nat

record store =
  dicts :: "ref \<Rightarrow> attractions_dict"
  lists :: "ref \<Rightarrow> string list"
  dict_count :: nat
  list_count :: nat

definition new_dict :: "attractions_dict \<Rightarrow> store \<Rightarrow> ref \<times> store" where
  "new_dict d s =
     (dict_count s, s\<lparr>dicts := (dicts s)(dict_count s := d), dict_count := Suc (dict_count s)\<rparr>)"

definition new_list :: "string list \<Rightarrow> store \<Rightarrow> ref \<times> store" where
  "new_list xs s =
     (list_count s, s\<lparr>lists := (lists s)(list_count s := xs), list_count := Suc (list_count s)\<rparr>)"

section \<open>SequentialIterator\<close>

text \<open>
  The fields \<open>_attractions\<close>, \<open>_keys\<close>, \<open>_current_attraction\<close> and \<open>_current_exhibit\<close>.
  A method takes the store, which it only reads, and the object \<open>self\<close>; \<open>next\<close> returns
  what the call returns or raises together with \<open>self\<close> as the call leaves it. \<open>next\<close>
  calls itself when the exhibits of the current attraction are used up; the limit that
  the interpreter puts on the depth of recursion is not part of the model.
\<close>

record SequentialIterator =
  seq_attractions :: ref
  seq_keys :: ref
  seq_current_attraction :: int
  seq_current_exhibit :: int

definition SequentialIterator_init :: "store \<Rightarrow> ref \<Rightarrow> SequentialIterator \<times> store" where
  "SequentialIterator_init s attractions =
     (let (keys, s') = new_list (dict_keys (dicts s attractions)) s in
      (\<lparr>seq_attractions = attractions, seq_keys = keys,
        seq_current_attraction = 0, seq_current_exhibit = 0\<rparr>, s'))"

definition SequentialIterator_has_next :: "store \<Rightarrow> SequentialIterator \<Rightarrow> bool" where
  "SequentialIterator_has_next s self \<longleftrightarrow>
     seq_current_attraction self < int (length (lists s (seq_keys self)))"

function SequentialIterator_next ::
  "store \<Rightarrow> SequentialIterator \<Rightarrow> (py_error + string option) \<times> SequentialIterator" where
  "SequentialIterator_next s self =
     (case list_getitem (lists s (seq_keys self)) (seq_current_attraction self) of
        Inl e \<Rightarrow> (Inl e, self)
      | Inr key \<Rightarrow>
          (case dict_getitem (dicts s (seq_attractions self)) key of
             Inl e \<Rightarrow> (Inl e, self)
           | Inr exhibits \<Rightarrow>
               if seq_current_exhibit self < int (length exhibits) then
                 (case list_getitem exhibits (seq_current_exhibit self) of
                    Inl e \<Rightarrow> (Inl e, self)
                  | Inr exhibit \<Rightarrow>
                      (Inr (Some (key @ '': '' @ exhibit)),
                       self\<lparr>seq_current_exhibit := seq_current_exhibit self + 1\<rparr>))
               else
                 (let self' = self\<lparr>seq_current_attraction := seq_current_attraction self + 1,
                                   seq_current_exhibit := 0\<rparr>
                  in if SequentialIterator_has_next s self'
                     then SequentialIterator_next s self'
                     else (Inr None, self'))))"
  by pat_completeness auto
termination
  apply (relation "measure (\<lambda>(s, self).
           nat (int (length (lists s (seq_keys self))) - seq_current_attraction self))")
  apply (auto simp: SequentialIterator_has_next_def)
  done

section \<open>BusIterator\<close>

record BusIterator =
  bus_attractions :: ref
  bus_keys :: ref
  bus_index :: int

definition BusIterator_init :: "store \<Rightarrow> ref \<Rightarrow> BusIterator \<times> store" where
  "BusIterator_init s attractions =
     (let (keys, s') = new_list (dict_keys (dicts s attractions)) s in
      (\<lparr>bus_attractions = attractions, bus_keys = keys, bus_index = 0\<rparr>, s'))"

definition BusIterator_has_next :: "store \<Rightarrow> BusIterator \<Rightarrow> bool" where
  "BusIterator_has_next s self \<longleftrightarrow> bus_index self < int (length (lists s (bus_keys self)))"

definition BusIterator_next ::
  "store \<Rightarrow> BusIterator \<Rightarrow> (py_error + string option) \<times> BusIterator" where
  "BusIterator_next s self =
     (case list_getitem (lists s (bus_keys self)) (bus_index self) of
        Inl e \<Rightarrow> (Inl e, self)
      | Inr key \<Rightarrow> (Inr (Some key), self\<lparr>bus_index := bus_index self + 1\<rparr>))"

section \<open>RandomWalkIterator\<close>

text \<open>
  \<open>random.shuffle\<close> belongs to Python's standard library. The constructor takes the
  rearrangement that this call of it performs as the parameter \<open>shuffle\<close>; the list
  it is applied to is the one the constructor has just made, and it is replaced in place.
\<close>

record RandomWalkIterator =
  rw_attractions :: ref
  rw_keys :: ref
  rw_current_attraction :: int
  rw_current_exhibit :: int

definition shuffle_in_place :: "(string list \<Rightarrow> string list) \<Rightarrow> ref \<Rightarrow> store \<Rightarrow> store" where
  "shuffle_in_place shuffle r s = s\<lparr>lists := (lists s)(r := shuffle (lists s r))\<rparr>"

definition RandomWalkIterator_init ::
  "(string list \<Rightarrow> string list) \<Rightarrow> store \<Rightarrow> ref \<Rightarrow> RandomWalkIterator \<times> store" where
  "RandomWalkIterator_init shuffle s attractions =
     (let (keys, s') = new_list (dict_keys (dicts s attractions)) s;
          s'' = shuffle_in_place shuffle keys s'
      in (\<lparr>rw_attractions = attractions, rw_keys = keys,
           rw_current_attraction = 0, rw_current_exhibit = 0\<rparr>, s''))"

definition RandomWalkIterator_has_next :: "store \<Rightarrow> RandomWalkIterator \<Rightarrow> bool" where
  "RandomWalkIterator_has_next s self \<longleftrightarrow>
     rw_current_attraction self < int (length (lists s (rw_keys self)))"

function RandomWalkIterator_next ::
  "store \<Rightarrow> RandomWalkIterator \<Rightarrow> (py_error + string option) \<times> RandomWalkIterator" where
  "RandomWalkIterator_next s self =
     (case list_getitem (lists s (rw_keys self)) (rw_current_attraction self) of
        Inl e \<Rightarrow> (Inl e, self)
      | Inr key \<Rightarrow>
          (case dict_getitem (dicts s (rw_attractions self)) key of
             Inl e \<Rightarrow> (Inl e, self)
           | Inr exhibits \<Rightarrow>
               if rw_current_exhibit self < int (length exhibits) then
                 (case list_getitem exhibits (rw_current_exhibit self) of
                    Inl e \<Rightarrow> (Inl e, self)
                  | Inr exhibit \<Rightarrow>
                      (Inr (Some (key @ '': '' @ exhibit)),
                       self\<lparr>rw_current_exhibit := rw_current_exhibit self + 1\<rparr>))
               else
                 (let self' = self\<lparr>rw_current_attraction := rw_current_attraction self + 1,
                                   rw_current_exhibit := 0\<rparr>
                  in if RandomWalkIterator_has_next s self'
                     then RandomWalkIterator_next s self'
                     else (Inr None, self'))))"
  by pat_completeness auto
termination
  apply (relation "measure (\<lambda>(s, self).
           nat (int (length (lists s (rw_keys self))) - rw_current_attraction self))")
  apply (auto simp: RandomWalkIterator_has_next_def)
  done

declare SequentialIterator_next.simps [simp del]

declare RandomWalkIterator_next.simps [simp del]

section \<open>CityAttractions\<close>

text \<open>
  The names of the three attractions and of their exhibits are Russian; a string is the
  list of the bytes of its UTF-8 encoding. In source order they read: Hermitage
  (Painting 1, Painting 2, Statue 1), St Isaac's Cathedral (Mosaic 1, Chandelier,
  Stained glass), Peter and Paul Fortress (Cannon, Museum of history).
\<close>

definition Ermitazh :: string where
  "Ermitazh =
     [CHR 0xD0, CHR 0xAD, CHR 0xD1, CHR 0x80, CHR 0xD0, CHR 0xBC, CHR 0xD0, CHR 0xB8,
      CHR 0xD1, CHR 0x82, CHR 0xD0, CHR 0xB0, CHR 0xD0, CHR 0xB6]"

definition Kartina_1 :: string where
  "Kartina_1 =
     [CHR 0xD0, CHR 0x9A, CHR 0xD0, CHR 0xB0, CHR 0xD1, CHR 0x80, CHR 0xD1, CHR 0x82,
      CHR 0xD0, CHR 0xB8, CHR 0xD0, CHR 0xBD, CHR 0xD0, CHR 0xB0, CHR 0x20, CHR 0x31]"

definition Kartina_2 :: string where
  "Kartina_2 =
     [CHR 0xD0, CHR 0x9A, CHR 0xD0, CHR 0xB0, CHR 0xD1, CHR 0x80, CHR 0xD1, CHR 0x82,
      CHR 0xD0, CHR 0xB8, CHR 0xD0, CHR 0xBD, CHR 0xD0, CHR 0xB0, CHR 0x20, CHR 0x32]"

definition Statuya_1 :: string where
  "Statuya_1 =
     [CHR 0xD0, CHR 0xA1, CHR 0xD1, CHR 0x82, CHR 0xD0, CHR 0xB0, CHR 0xD1, CHR 0x82,
      CHR 0xD1, CHR 0x83, CHR 0xD1, CHR 0x8F, CHR 0x20, CHR 0x31]"

definition Isaakievskiy_sobor :: string where
  "Isaakievskiy_sobor =
     [CHR 0xD0, CHR 0x98, CHR 0xD1, CHR 0x81, CHR 0xD0, CHR 0xB0, CHR 0xD0, CHR 0xB0,
      CHR 0xD0, CHR 0xBA, CHR 0xD0, CHR 0xB8, CHR 0xD0, CHR 0xB5, CHR 0xD0, CHR 0xB2,
      CHR 0xD1, CHR 0x81, CHR 0xD0, CHR 0xBA, CHR 0xD0, CHR 0xB8, CHR 0xD0, CHR 0xB9,
      CHR 0x20, CHR 0xD1, CHR 0x81, CHR 0xD0, CHR 0xBE, CHR 0xD0, CHR 0xB1, CHR 0xD0,
      CHR 0xBE, CHR 0xD1, CHR 0x80]"

definition Mozaika_1 :: string where
  "Mozaika_1 =
     [CHR 0xD0, CHR 0x9C, CHR 0xD0, CHR 0xBE, CHR 0xD0, CHR 0xB7, CHR 0xD0, CHR 0xB0,
      CHR 0xD0, CHR 0xB8, CHR 0xD0, CHR 0xBA, CHR 0xD0, CHR 0xB0, CHR 0x20, CHR 0x31]"

definition Lyustra :: string where
  "Lyustra =
     [CHR 0xD0, CHR 0x9B, CHR 0xD1, CHR 0x8E, CHR 0xD1, CHR 0x81, CHR 0xD1, CHR 0x82,
      CHR 0xD1, CHR 0x80, CHR 0xD0, CHR 0xB0]"

definition Vitrazh :: string where
  "Vitrazh =
     [CHR 0xD0, CHR 0x92, CHR 0xD0, CHR 0xB8, CHR 0xD1, CHR 0x82, CHR 0xD1, CHR 0x80,
      CHR 0xD0, CHR 0xB0, CHR 0xD0, CHR 0xB6]"

definition Petropavlovskaya_krepost :: string where
  "Petropavlovskaya_krepost =
     [CHR 0xD0, CHR 0x9F, CHR 0xD0, CHR 0xB5, CHR 0xD1, CHR 0x82, CHR 0xD1, CHR 0x80,
      CHR 0xD0, CHR 0xBE, CHR 0xD0, CHR 0xBF, CHR 0xD0, CHR 0xB0, CHR 0xD0, CHR 0xB2,
      CHR 0xD0, CHR 0xBB, CHR 0xD0, CHR 0xBE, CHR 0xD0, CHR 0xB2, CHR 0xD1, CHR 0x81,
      CHR 0xD0, CHR 0xBA, CHR 0xD0, CHR 0xB0, CHR 0xD1, CHR 0x8F, CHR 0x20, CHR 0xD0,
      CHR 0xBA, CHR 0xD1, CHR 0x80, CHR 0xD0, CHR 0xB5, CHR 0xD0, CHR 0xBF, CHR 0xD0,
      CHR 0xBE, CHR 0xD1, CHR 0x81, CHR 0xD1, CHR 0x82, CHR 0xD1, CHR 0x8C]"

definition Pushka :: string where
  "Pushka =
     [CHR 0xD0, CHR 0x9F, CHR 0xD1, CHR 0x83, CHR 0xD1, CHR 0x88, CHR 0xD0, CHR 0xBA,
      CHR 0xD0, CHR 0xB0]"

definition Muzey_istorii :: string where
  "Muzey_istorii =
     [CHR 0xD0, CHR 0x9C, CHR 0xD1, CHR 0x83, CHR 0xD0, CHR 0xB7, CHR 0xD0, CHR 0xB5,
      CHR 0xD0, CHR 0xB9, CHR 0x20, CHR 0xD0, CHR 0xB8, CHR 0xD1, CHR 0x81, CHR 0xD1,
      CHR 0x82, CHR 0xD0, CHR 0xBE, CHR 0xD1, CHR 0x80, CHR 0xD0, CHR 0xB8, CHR 0xD0,
      CHR 0xB8]"

record CityAttractions =
  city_attractions :: ref

definition CityAttractions_init :: "store \<Rightarrow> CityAttractions \<times> store" where
  "CityAttractions_init s =
     (let (d, s') = new_dict
            [(Ermitazh, [Kartina_1, Kartina_2, Statuya_1]),
             (Isaakievskiy_sobor, [Mozaika_1, Lyustra, Vitrazh]),
             (Petropavlovskaya_krepost, [Pushka, Muzey_istorii])] s
      in (\<lparr>city_attractions = d\<rparr>, s'))"

text \<open>
  An iterator of any of the three classes, as \<open>create_iterator\<close> returns it and the
  client uses it through the two methods of the interface.
\<close>

datatype iterator =
  is_Seq: Seq SequentialIterator | is_Bus: Bus BusIterator | is_Rnd: Rnd RandomWalkIterator

text \<open>
  \<open>create_iterator(self, type_="sequential")\<close> (\<open>type_\<close> is \<open>type'\<close> below): the argument
  is optional, \<open>None\<close> here stands for a call that leaves it out.
\<close>

definition create_iterator ::
  "(string list \<Rightarrow> string list) \<Rightarrow> store \<Rightarrow> CityAttractions \<Rightarrow> string option
     \<Rightarrow> iterator \<times> store" where
  "create_iterator shuffle s self type_arg =
     (let type' = (case type_arg of None \<Rightarrow> ''sequential'' | Some t \<Rightarrow> t) in
      if type' = ''bus'' then
        (let (it, s') = BusIterator_init s (city_attractions self) in (Bus it, s'))
      else if type' = ''random_walk'' then
        (let (it, s') = RandomWalkIterator_init shuffle s (city_attractions self)
         in (Rnd it, s'))
      else
        (let (it, s') = SequentialIterator_init s (city_attractions self) in (Seq it, s')))"

section \<open>The interface\<close>

text \<open>
  \<open>iterator.has_next()\<close> and \<open>iterator.next()\<close> on an iterator of unknown class: the call
  goes to the method of the class of the object.
\<close>

definition iterator_has_next :: "store \<Rightarrow> iterator \<Rightarrow> bool" where
  "iterator_has_next s it =
     (case it of
        Seq self \<Rightarrow> SequentialIterator_has_next s self
      | Bus self \<Rightarrow> BusIterator_has_next s self
      | Rnd self \<Rightarrow> RandomWalkIterator_has_next s self)"

definition iterator_next :: "store \<Rightarrow> iterator \<Rightarrow> (py_error + string option) \<times> iterator" where
  "iterator_next s it =
     (case it of
        Seq self \<Rightarrow> apsnd Seq (SequentialIterator_next s self)
      | Bus self \<Rightarrow> apsnd Bus (BusIterator_next s self)
      | Rnd self \<Rightarrow> apsnd Rnd (RandomWalkIterator_next s self))"

section \<open>One call of next, branch by branch\<close>

text \<open>
  \<open>seq_advance\<close> is the assignment pair of the \<open>else\<close> branch, \<open>_current_attraction += 1\<close>
  and \<open>_current_exhibit = 0\<close>. \<open>seq_of_rw\<close> and \<open>rw_of_seq\<close> copy the fields of an iterator
  of one walking class into an iterator of the other. \<open>seq_left\<close> and \<open>iterator_left\<close> count
  the groups not yet passed and the exhibits left in the current one.
\<close>

definition seq_advance :: "SequentialIterator \<Rightarrow> SequentialIterator" where
  "seq_advance self = self\<lparr>seq_current_attraction := seq_current_attraction self + 1,
                                   seq_current_exhibit := 0\<rparr>"

definition seq_of_rw :: "RandomWalkIterator \<Rightarrow> SequentialIterator" where
  "seq_of_rw self =
     \<lparr>seq_attractions = rw_attractions self, seq_keys = rw_keys self,
      seq_current_attraction = rw_current_attraction self,
      seq_current_exhibit = rw_current_exhibit self\<rparr>"

definition rw_of_seq :: "SequentialIterator \<Rightarrow> RandomWalkIterator" where
  "rw_of_seq self =
     \<lparr>rw_attractions = seq_attractions self, rw_keys = seq_keys self,
      rw_current_attraction = seq_current_attraction self,
      rw_current_exhibit = seq_current_exhibit self\<rparr>"

definition seq_left :: "store \<Rightarrow> SequentialIterator \<Rightarrow> nat \<times> nat" where
  "seq_left s self =
     (nat (int (length (lists s (seq_keys self))) - seq_current_attraction self),
      (case list_getitem (lists s (seq_keys self)) (seq_current_attraction self) of
         Inl e \<Rightarrow> 0
       | Inr key \<Rightarrow>
           (case dict_getitem (dicts s (seq_attractions self)) key of
              Inl e \<Rightarrow> 0
            | Inr exhibits \<Rightarrow> nat (int (length exhibits) - seq_current_exhibit self))))"

definition iterator_left :: "store \<Rightarrow> iterator \<Rightarrow> nat \<times> nat" where
  "iterator_left s it =
     (case it of
        Seq self \<Rightarrow> seq_left s self
      | Bus self \<Rightarrow> (nat (int (length (lists s (bus_keys self))) - bus_index self), 0)
      | Rnd self \<Rightarrow> seq_left s (seq_of_rw self))"

lemma rw_of_seq_of_rw [simp]: "rw_of_seq (seq_of_rw self) = self"
  by (simp add: rw_of_seq_def seq_of_rw_def)

lemma seq_of_rw_of_seq [simp]: "seq_of_rw (rw_of_seq self) = self"
  by (simp add: rw_of_seq_def seq_of_rw_def)

lemma seq_of_rw_simps [simp]:
  "seq_attractions (seq_of_rw self) = rw_attractions self"
  "seq_keys (seq_of_rw self) = rw_keys self"
  "seq_current_attraction (seq_of_rw self) = rw_current_attraction self"
  "seq_current_exhibit (seq_of_rw self) = rw_current_exhibit self"
  by (simp_all add: seq_of_rw_def)

lemma list_getitem_past_end:
  "\<not> i < int (length xs) \<Longrightarrow> list_getitem xs i = Inl IndexError"
  by (simp add: list_getitem_def Let_def)

lemma list_getitem_Inr_less:
  "list_getitem xs i = Inr x \<Longrightarrow> i < int (length xs)"
  by (auto simp: list_getitem_def Let_def split: if_splits)

lemma list_getitem_nth:
  "0 \<le> i \<Longrightarrow> i < int (length xs) \<Longrightarrow> list_getitem xs i = Inr (xs ! nat i)"
  by (simp add: list_getitem_def Let_def)

lemma list_getitem_Inr_nth:
  "0 \<le> i \<Longrightarrow> list_getitem xs i = Inr x \<Longrightarrow> x = xs ! nat i"
  by (auto simp: list_getitem_def Let_def split: if_splits)

lemma dict_getitem_Inr: "dict_getitem d k = Inr v \<longleftrightarrow> map_of d k = Some v"
  by (simp add: dict_getitem_def split: option.splits)

lemma dict_getitem_Inl: "dict_getitem d k = Inl e \<longleftrightarrow> map_of d k = None \<and> e = KeyError"
  by (auto simp: dict_getitem_def split: option.splits)

lemma seq_next_no_key:
  "list_getitem (lists s (seq_keys self)) (seq_current_attraction self) = Inl e \<Longrightarrow>
   SequentialIterator_next s self = (Inl e, self)"
  by (subst SequentialIterator_next.simps) simp

lemma seq_next_no_exhibits:
  "list_getitem (lists s (seq_keys self)) (seq_current_attraction self) = Inr key \<Longrightarrow>
   dict_getitem (dicts s (seq_attractions self)) key = Inl e \<Longrightarrow>
   SequentialIterator_next s self = (Inl e, self)"
  by (subst SequentialIterator_next.simps) simp

lemma seq_next_exhibit:
  "list_getitem (lists s (seq_keys self)) (seq_current_attraction self) = Inr key \<Longrightarrow>
   dict_getitem (dicts s (seq_attractions self)) key = Inr exhibits \<Longrightarrow>
   seq_current_exhibit self < int (length exhibits) \<Longrightarrow>
   SequentialIterator_next s self =
     (case list_getitem exhibits (seq_current_exhibit self) of
        Inl e \<Rightarrow> (Inl e, self)
      | Inr exhibit \<Rightarrow>
          (Inr (Some (key @ '': '' @ exhibit)),
           self\<lparr>seq_current_exhibit := seq_current_exhibit self + 1\<rparr>))"
  by (subst SequentialIterator_next.simps) simp

lemma seq_next_advance:
  "list_getitem (lists s (seq_keys self)) (seq_current_attraction self) = Inr key \<Longrightarrow>
   dict_getitem (dicts s (seq_attractions self)) key = Inr exhibits \<Longrightarrow>
   \<not> seq_current_exhibit self < int (length exhibits) \<Longrightarrow>
   SequentialIterator_next s self =
     (if SequentialIterator_has_next s (seq_advance self)
      then SequentialIterator_next s (seq_advance self)
      else (Inr None, seq_advance self))"
  by (subst SequentialIterator_next.simps) (simp add: Let_def seq_advance_def)

text \<open>
  One call of \<open>next\<close>, by the branch it takes.
\<close>

lemma seq_next_branches [case_names IndexError KeyError ExhibitError Exhibit Advance Finish]:
  assumes "\<And>e. list_getitem (lists s (seq_keys self)) (seq_current_attraction self) = Inl e \<Longrightarrow>
             SequentialIterator_next s self = (Inl e, self) \<Longrightarrow> thesis"
    and "\<And>key e. list_getitem (lists s (seq_keys self)) (seq_current_attraction self) = Inr key \<Longrightarrow>
             dict_getitem (dicts s (seq_attractions self)) key = Inl e \<Longrightarrow>
             SequentialIterator_next s self = (Inl e, self) \<Longrightarrow> thesis"
    and "\<And>key exhibits e.
             list_getitem (lists s (seq_keys self)) (seq_current_attraction self) = Inr key \<Longrightarrow>
             dict_getitem (dicts s (seq_attractions self)) key = Inr exhibits \<Longrightarrow>
             seq_current_exhibit self < int (length exhibits) \<Longrightarrow>
             list_getitem exhibits (seq_current_exhibit self) = Inl e \<Longrightarrow>
             SequentialIterator_next s self = (Inl e, self) \<Longrightarrow> thesis"
    and "\<And>key exhibits exhibit.
             list_getitem (lists s (seq_keys self)) (seq_current_attraction self) = Inr key \<Longrightarrow>
             dict_getitem (dicts s (seq_attractions self)) key = Inr exhibits \<Longrightarrow>
             seq_current_exhibit self < int (length exhibits) \<Longrightarrow>
             list_getitem exhibits (seq_current_exhibit self) = Inr exhibit \<Longrightarrow>
             SequentialIterator_next s self =
               (Inr (Some (key @ '': '' @ exhibit)),
                self\<lparr>seq_current_exhibit := seq_current_exhibit self + 1\<rparr>) \<Longrightarrow> thesis"
    and "\<And>key exhibits.
             list_getitem (lists s (seq_keys self)) (seq_current_attraction self) = Inr key \<Longrightarrow>
             dict_getitem (dicts s (seq_attractions self)) key = Inr exhibits \<Longrightarrow>
             \<not> seq_current_exhibit self < int (length exhibits) \<Longrightarrow>
             SequentialIterator_has_next s (seq_advance self) \<Longrightarrow>
             SequentialIterator_next s self = SequentialIterator_next s (seq_advance self) \<Longrightarrow>
             thesis"
    and "\<And>key exhibits.
             list_getitem (lists s (seq_keys self)) (seq_current_attraction self) = Inr key \<Longrightarrow>
             dict_getitem (dicts s (seq_attractions self)) key = Inr exhibits \<Longrightarrow>
             \<not> seq_current_exhibit self < int (length exhibits) \<Longrightarrow>
             \<not> SequentialIterator_has_next s (seq_advance self) \<Longrightarrow>
             SequentialIterator_next s self = (Inr None, seq_advance self) \<Longrightarrow> thesis"
  shows thesis
proof (cases "list_getitem (lists s (seq_keys self)) (seq_current_attraction self)")
  case (Inl e)
  then show ?thesis using assms(1) seq_next_no_key by blast
next
  case key: (Inr key)
  show ?thesis
  proof (cases "dict_getitem (dicts s (seq_attractions self)) key")
    case (Inl e)
    then show ?thesis using key assms(2) seq_next_no_exhibits by blast
  next
    case ex: (Inr exhibits)
    show ?thesis
    proof (cases "seq_current_exhibit self < int (length exhibits)")
      case True
      show ?thesis
      proof (cases "list_getitem exhibits (seq_current_exhibit self)")
        case (Inl e)
        with seq_next_exhibit[OF key ex True] assms(3)[OF key ex True] show ?thesis by simp
      next
        case (Inr exhibit)
        with seq_next_exhibit[OF key ex True] assms(4)[OF key ex True] show ?thesis by simp
      qed
    next
      case False
      show ?thesis
      proof (cases "SequentialIterator_has_next s (seq_advance self)")
        case True
        with seq_next_advance[OF key ex False] assms(5)[OF key ex False] show ?thesis by simp
      next
        case F: False
        with seq_next_advance[OF key ex False] assms(6)[OF key ex False] show ?thesis by simp
      qed
    qed
  qed
qed

text \<open>
  Induction along the self-call of \<open>next\<close>.
\<close>

lemma seq_next_induct [case_names step]:
  assumes "\<And>s self.
     (\<And>key exhibits.
         list_getitem (lists s (seq_keys self)) (seq_current_attraction self) = Inr key \<Longrightarrow>
         dict_getitem (dicts s (seq_attractions self)) key = Inr exhibits \<Longrightarrow>
         \<not> seq_current_exhibit self < int (length exhibits) \<Longrightarrow>
         SequentialIterator_has_next s (seq_advance self) \<Longrightarrow> P s (seq_advance self)) \<Longrightarrow>
     P s self"
  shows "P s self"
proof (induction s self rule: SequentialIterator_next.induct)
  case (1 s self)
  show ?case
  proof (rule assms)
    fix key exhibits
    assume "list_getitem (lists s (seq_keys self)) (seq_current_attraction self) = Inr key"
      "dict_getitem (dicts s (seq_attractions self)) key = Inr exhibits"
      "\<not> seq_current_exhibit self < int (length exhibits)"
      "SequentialIterator_has_next s (seq_advance self)"
    then show "P s (seq_advance self)"
      using "1.IH"[of key exhibits "seq_advance self"] by (simp add: seq_advance_def)
  qed
qed

lemma SequentialIterator_next_frame:
  "SequentialIterator_next s self = (r, self') \<Longrightarrow>
     seq_attractions self' = seq_attractions self \<and> seq_keys self' = seq_keys self \<and>
     seq_current_attraction self \<le> seq_current_attraction self'"
proof (induction s self rule: seq_next_induct)
  case (step s self)
  show ?case
  proof (cases s self rule: seq_next_branches)
    case (Advance key exhibits)
    from step.prems Advance(5)
    have "SequentialIterator_next s (seq_advance self) = (r, self')" by simp
    from step.IH[OF Advance(1-4) this] show ?thesis by (simp add: seq_advance_def)
  qed (use step.prems in \<open>auto simp: seq_advance_def\<close>)
qed

lemma seq_next_cursor_bound:
  "SequentialIterator_next s self = (r, self') \<Longrightarrow>
   seq_current_attraction self \<le> int (length (lists s (seq_keys self))) \<Longrightarrow>
   seq_current_attraction self' \<le> int (length (lists s (seq_keys self)))"
proof (induction s self rule: seq_next_induct)
  case (step s self)
  show ?case
  proof (cases s self rule: seq_next_branches)
    case (Advance key exhibits)
    from step.prems(1) Advance(5)
    have n: "SequentialIterator_next s (seq_advance self) = (r, self')" by simp
    have "seq_current_attraction (seq_advance self) \<le>
        int (length (lists s (seq_keys (seq_advance self))))"
      using Advance(4) by (simp add: SequentialIterator_has_next_def)
    from step.IH[OF Advance(1-4) n this] show ?thesis by (simp add: seq_advance_def)
  next
    case (Finish key exhibits)
    from list_getitem_Inr_less[OF Finish(1)] Finish(5) step.prems(1)
    show ?thesis by (simp add: seq_advance_def)
  qed (use step.prems in auto)
qed

text \<open>
  The random walk steps as the sequential iterator with the same fields does.
\<close>

lemma rw_has_next_seq:
  "RandomWalkIterator_has_next s self = SequentialIterator_has_next s (seq_of_rw self)"
  by (simp add: RandomWalkIterator_has_next_def SequentialIterator_has_next_def)

lemma rw_next_seq:
  "RandomWalkIterator_next s self = apsnd rw_of_seq (SequentialIterator_next s (seq_of_rw self))"
proof (induction s self rule: RandomWalkIterator_next.induct)
  case (1 s self)
  let ?self' = "self\<lparr>rw_current_attraction := rw_current_attraction self + 1,
                        rw_current_exhibit := 0\<rparr>"
  have adv: "seq_advance (seq_of_rw self) = seq_of_rw ?self'"
    by (simp add: seq_advance_def seq_of_rw_def)
  have upd: "rw_of_seq (seq_of_rw self\<lparr>seq_current_exhibit := rw_current_exhibit self + 1\<rparr>)
      = self\<lparr>rw_current_exhibit := rw_current_exhibit self + 1\<rparr>"
    by (simp add: rw_of_seq_def seq_of_rw_def)
  show ?case
  proof (cases "list_getitem (lists s (rw_keys self)) (rw_current_attraction self)")
    case (Inl e)
    then show ?thesis
      by (subst RandomWalkIterator_next.simps) (simp add: seq_next_no_key)
  next
    case key: (Inr key)
    show ?thesis
    proof (cases "dict_getitem (dicts s (rw_attractions self)) key")
      case (Inl e)
      with key show ?thesis
        by (subst RandomWalkIterator_next.simps) (simp add: seq_next_no_exhibits)
    next
      case ex: (Inr exhibits)
      show ?thesis
      proof (cases "rw_current_exhibit self < int (length exhibits)")
        case True
        with key ex show ?thesis
          by (subst RandomWalkIterator_next.simps)
             (simp add: seq_next_exhibit upd split: sum.splits)
      next
        case False
        have seq: "SequentialIterator_next s (seq_of_rw self) =
            (if SequentialIterator_has_next s (seq_of_rw ?self')
             then SequentialIterator_next s (seq_of_rw ?self')
             else (Inr None, seq_of_rw ?self'))"
          using seq_next_advance[of s "seq_of_rw self" key exhibits] key ex False
          by (simp add: adv)
        show ?thesis
        proof (cases "RandomWalkIterator_has_next s ?self'")
          case True
          from "1.IH"[OF key ex False refl True] True key ex False seq
          show ?thesis
            by (subst RandomWalkIterator_next.simps) (simp add: rw_has_next_seq Let_def)
        next
          case F: False
          with key ex False seq show ?thesis
            by (subst RandomWalkIterator_next.simps) (simp add: rw_has_next_seq Let_def)
        qed
      qed
    qed
  qed
qed

text \<open>
  Every call of \<open>next\<close> that returns moves a cursor forward.
\<close>

lemma seq_next_progress:
  assumes "SequentialIterator_has_next s self"
    and "SequentialIterator_next s self = (Inr v, self')"
  shows "(seq_left s self', seq_left s self) \<in> less_than <*lex*> less_than"
proof (cases s self rule: seq_next_branches)
  case (Exhibit key exhibits exhibit)
  with assms(2) have "self' = self\<lparr>seq_current_exhibit := seq_current_exhibit self + 1\<rparr>"
    by simp
  with Exhibit(1-3) show ?thesis by (simp add: seq_left_def)
next
  case (Advance key exhibits)
  with assms(2) have "SequentialIterator_next s (seq_advance self) = (Inr v, self')" by simp
  from SequentialIterator_next_frame[OF this]
  have "seq_keys self' = seq_keys self"
    "seq_current_attraction self < seq_current_attraction self'"
    by (simp_all add: seq_advance_def)
  with assms(1) show ?thesis
    by (simp add: seq_left_def SequentialIterator_has_next_def)
next
  case (Finish key exhibits)
  with assms(2) have "self' = seq_advance self" by simp
  with assms(1) show ?thesis
    by (simp add: seq_left_def SequentialIterator_has_next_def seq_advance_def)
qed (use assms(2) in simp_all)

lemma iterator_next_progress:
  assumes "iterator_has_next s it" and "iterator_next s it = (Inr v, it')"
  shows "(iterator_left s it', iterator_left s it) \<in> less_than <*lex*> less_than"
proof (cases it)
  case (Seq self)
  with assms obtain self' where "it' = Seq self'"
    "SequentialIterator_next s self = (Inr v, self')" "SequentialIterator_has_next s self"
    by (cases "SequentialIterator_next s self")
       (auto simp: iterator_next_def iterator_has_next_def)
  with Seq seq_next_progress[of s self v self'] show ?thesis
    by (simp add: iterator_left_def)
next
  case (Bus self)
  with assms show ?thesis
    by (auto simp: iterator_next_def iterator_has_next_def iterator_left_def
        BusIterator_next_def BusIterator_has_next_def split: sum.splits)
next
  case (Rnd self)
  with assms obtain self' where "it' = Rnd (rw_of_seq self')"
    "SequentialIterator_next s (seq_of_rw self) = (Inr v, self')"
    "SequentialIterator_has_next s (seq_of_rw self)"
    by (cases "SequentialIterator_next s (seq_of_rw self)")
       (auto simp: iterator_next_def iterator_has_next_def rw_next_seq rw_has_next_seq)
  with Rnd seq_next_progress[of s "seq_of_rw self" v self'] show ?thesis
    by (simp add: iterator_left_def)
qed

section \<open>The client\<close>

text \<open>
  \<open>while iterator.has_next(): print(iterator.next())\<close>, the loop that \<open>main\<close> runs on each
  of its three iterators. The result lists the values handed to \<open>print\<close>, in order, then
  the exception that ended the loop, if one did, and the iterator as the loop leaves it.
  The loop terminates because every call of \<open>next\<close> that returns moves a cursor forward.
\<close>

function main_loop :: "store \<Rightarrow> iterator \<Rightarrow> string option list \<times> py_error option \<times> iterator" where
  "main_loop s it =
     (if iterator_has_next s it then
        (case iterator_next s it of
           (Inl e, it') \<Rightarrow> ([], Some e, it')
         | (Inr v, it') \<Rightarrow> (case main_loop s it' of (vs, r) \<Rightarrow> (v # vs, r)))
      else ([], None, it))"
  by pat_completeness auto
termination
proof (relation "inv_image (less_than <*lex*> less_than) (\<lambda>(s, it). iterator_left s it)")
  show "wf (inv_image (less_than <*lex*> less_than) (\<lambda>(s, it). iterator_left s it))"
    by (intro wf_inv_image wf_lex_prod wf_less_than)
next
  fix s it x1 it' v
  assume "iterator_has_next s it" "(x1, it') = iterator_next s it" "x1 = Inr v"
  then show "((s, it'), (s, it)) \<in> inv_image (less_than <*lex*> less_than) (\<lambda>(s, it). iterator_left s it)"
    using iterator_next_progress[of s it v it'] by simp
qed

declare main_loop.simps [simp del]

text \<open>
  \<open>main\<close>: the collection, then the three loops, each under its heading (On foot, By bus,
  Random walk; the last two start with a line feed). The result lists what \<open>print\<close> wrote,
  one entry for each call, and the exception that ended the program, if one did;
  \<open>print\<close> writes \<open>None\<close> for the value \<open>None\<close>.
\<close>

definition Peshkom :: string where
  "Peshkom =
     [CHR 0xD0, CHR 0x9F, CHR 0xD0, CHR 0xB5, CHR 0xD1, CHR 0x88, CHR 0xD0, CHR 0xBA,
      CHR 0xD0, CHR 0xBE, CHR 0xD0, CHR 0xBC, CHR 0x3A]"

definition Na_avtobuse :: string where
  "Na_avtobuse =
     [CHR 0x0A, CHR 0xD0, CHR 0x9D, CHR 0xD0, CHR 0xB0, CHR 0x20, CHR 0xD0, CHR 0xB0,
      CHR 0xD0, CHR 0xB2, CHR 0xD1, CHR 0x82, CHR 0xD0, CHR 0xBE, CHR 0xD0, CHR 0xB1,
      CHR 0xD1, CHR 0x83, CHR 0xD1, CHR 0x81, CHR 0xD0, CHR 0xB5, CHR 0x3A]"

definition Sluchaynaya_progulka :: string where
  "Sluchaynaya_progulka =
     [CHR 0x0A, CHR 0xD0, CHR 0xA1, CHR 0xD0, CHR 0xBB, CHR 0xD1, CHR 0x83, CHR 0xD1,
      CHR 0x87, CHR 0xD0, CHR 0xB0, CHR 0xD0, CHR 0xB9, CHR 0xD0, CHR 0xBD, CHR 0xD0,
      CHR 0xB0, CHR 0xD1, CHR 0x8F, CHR 0x20, CHR 0xD0, CHR 0xBF, CHR 0xD1, CHR 0x80,
      CHR 0xD0, CHR 0xBE, CHR 0xD0, CHR 0xB3, CHR 0xD1, CHR 0x83, CHR 0xD0, CHR 0xBB,
      CHR 0xD0, CHR 0xBA, CHR 0xD0, CHR 0xB0, CHR 0x3A]"

definition print_line :: "string option \<Rightarrow> string" where
  "print_line v = (case v of None \<Rightarrow> ''None'' | Some x \<Rightarrow> x)"

definition main :: "(string list \<Rightarrow> string list) \<Rightarrow> store \<Rightarrow> string list \<times> py_error option" where
  "main shuffle s0 =
     (let (city, s1) = CityAttractions_init s0;
          out1 = [Peshkom];
          (iterator, s2) = create_iterator shuffle s1 city None;
          (vs1, e1, it1) = main_loop s2 iterator;
          out2 = out1 @ map print_line vs1
      in case e1 of
           Some e \<Rightarrow> (out2, Some e)
         | None \<Rightarrow>
             (let out3 = out2 @ [Na_avtobuse];
                  (bus_iterator, s3) = create_iterator shuffle s2 city (Some ''bus'');
                  (vs2, e2, it2) = main_loop s3 bus_iterator;
                  out4 = out3 @ map print_line vs2
              in case e2 of
                   Some e \<Rightarrow> (out4, Some e)
                 | None \<Rightarrow>
                     (let out5 = out4 @ [Sluchaynaya_progulka];
                          (random_walk_iterator, s4) =
                             create_iterator shuffle s3 city (Some ''random_walk'');
                          (vs3, e3, it3) = main_loop s4 random_walk_iterator
                      in (out5 @ map print_line vs3, e3))))"

text \<open>
  A client can also call the two methods in any order it likes. A call acts on the store
  and the iterator and answers with a truth value (\<open>has_next\<close>) or with what \<open>next\<close>
  returned or raised; an exception leaves the iterator usable, so the calls after it act
  on the iterator as the failed call left it. \<open>after_calls\<close> is the store and the iterator
  that a sequence of calls leaves behind.
\<close>

datatype call = HasNext | Next

datatype reply = Answer bool | Outcome "py_error + string option"

definition iterator_call :: "call \<Rightarrow> store \<times> iterator \<Rightarrow> reply \<times> store \<times> iterator" where
  "iterator_call c w =
     (case c of
        HasNext \<Rightarrow> (Answer (iterator_has_next (fst w) (snd w)), w)
      | Next \<Rightarrow>
          (case iterator_next (fst w) (snd w) of (r, it') \<Rightarrow> (Outcome r, (fst w, it'))))"

fun iterator_calls :: "call list \<Rightarrow> store \<times> iterator \<Rightarrow> reply list \<times> store \<times> iterator" where
  "iterator_calls [] w = ([], w)"
| "iterator_calls (c # cs) w =
     (case iterator_call c w of
        (r, w') \<Rightarrow> (case iterator_calls cs w' of (rs, w'') \<Rightarrow> (r # rs, w'')))"

definition after_calls :: "call list \<Rightarrow> store \<times> iterator \<Rightarrow> store \<times> iterator" where
  "after_calls cs w = snd (iterator_calls cs w)"

section \<open>Notions used in the statements\<close>

text \<open>
  The empty store; the store whose only dictionary is \<open>{"A": ["x", "y"], "B": []}\<close>; one
  new iterator of each class on it, the random walk with its keys reversed by the shuffle;
  the sequential iterator after both exhibits of \<open>A\<close> have been returned; a sequential and
  a bus iterator whose cursor has passed both groups.
\<close>

definition empty_store :: store where
  "empty_store = \<lparr>dicts = (\<lambda>r. []), lists = (\<lambda>r. []), dict_count = 0, list_count = 0\<rparr>"

definition example_store :: store where
  "example_store = snd (new_dict [(''A'', [''x'', ''y'']), (''B'', [])] empty_store)"

definition example_seq :: "store \<times> iterator" where
  "example_seq =
     (snd (SequentialIterator_init example_store 0),
      Seq (fst (SequentialIterator_init example_store 0)))"

definition example_bus :: "store \<times> iterator" where
  "example_bus =
     (snd (BusIterator_init example_store 0), Bus (fst (BusIterator_init example_store 0)))"

definition example_rnd :: "store \<times> iterator" where
  "example_rnd =
     (snd (RandomWalkIterator_init rev example_store 0),
      Rnd (fst (RandomWalkIterator_init rev example_store 0)))"

definition items_of_A_done :: SequentialIterator where
  "items_of_A_done =
     \<lparr>seq_attractions = 0, seq_keys = 0, seq_current_attraction = 0, seq_current_exhibit = 2\<rparr>"

definition all_groups_done :: SequentialIterator where
  "all_groups_done =
     \<lparr>seq_attractions = 0, seq_keys = 0, seq_current_attraction = 2, seq_current_exhibit = 0\<rparr>"

definition bus_groups_done :: BusIterator where
  "bus_groups_done = \<lparr>bus_attractions = 0, bus_keys = 0, bus_index = 2\<rparr>"

text \<open>
  \<open>as_random_walk\<close> reads a sequential iterator as the random walk with the same fields.
\<close>

fun as_random_walk :: "iterator \<Rightarrow> iterator" where
  "as_random_walk (Seq self) = Rnd (rw_of_seq self)"
| "as_random_walk (Bus self) = Bus self"
| "as_random_walk (Rnd self) = Rnd self"

text \<open>
  \<open>SequentialIterator_next_depth\<close> and \<open>RandomWalkIterator_next_depth\<close> follow the same tests
  as the two \<open>next\<close> methods and count how many times a call of \<open>next\<close> calls itself.
\<close>

function SequentialIterator_next_depth :: "store \<Rightarrow> SequentialIterator \<Rightarrow> nat" where
  "SequentialIterator_next_depth s self =
     (case list_getitem (lists s (seq_keys self)) (seq_current_attraction self) of
        Inl e \<Rightarrow> 0
      | Inr key \<Rightarrow>
          (case dict_getitem (dicts s (seq_attractions self)) key of
             Inl e \<Rightarrow> 0
           | Inr exhibits \<Rightarrow>
               if seq_current_exhibit self < int (length exhibits) then 0
               else
                 (let self' = self\<lparr>seq_current_attraction := seq_current_attraction self + 1,
                                   seq_current_exhibit := 0\<rparr>
                  in if SequentialIterator_has_next s self'
                     then Suc (SequentialIterator_next_depth s self')
                     else 0)))"
  by pat_completeness auto
termination
  apply (relation "measure (\<lambda>(s, self).
           nat (int (length (lists s (seq_keys self))) - seq_current_attraction self))")
  apply (auto simp: SequentialIterator_has_next_def)
  done

function RandomWalkIterator_next_depth :: "store \<Rightarrow> RandomWalkIterator \<Rightarrow> nat" where
  "RandomWalkIterator_next_depth s self =
     (case list_getitem (lists s (rw_keys self)) (rw_current_attraction self) of
        Inl e \<Rightarrow> 0
      | Inr key \<Rightarrow>
          (case dict_getitem (dicts s (rw_attractions self)) key of
             Inl e \<Rightarrow> 0
           | Inr exhibits \<Rightarrow>
               if rw_current_exhibit self < int (length exhibits) then 0
               else
                 (let self' = self\<lparr>rw_current_attraction := rw_current_attraction self + 1,
                                   rw_current_exhibit := 0\<rparr>
                  in if RandomWalkIterator_has_next s self'
                     then Suc (RandomWalkIterator_next_depth s self')
                     else 0)))"
  by pat_completeness auto
termination
  apply (relation "measure (\<lambda>(s, self).
           nat (int (length (lists s (rw_keys self))) - rw_current_attraction self))")
  apply (auto simp: RandomWalkIterator_has_next_def)
  done

declare SequentialIterator_next_depth.simps [simp del]

declare RandomWalkIterator_next_depth.simps [simp del]

text \<open>
  \<open>no_exhibit_left d ks ca ce\<close>: in the dictionary \<open>d\<close>, the group at position \<open>ca\<close> of the
  key list \<open>ks\<close> has no exhibit at or after \<open>ce\<close>, and every group after it has none at
  all.
\<close>

definition no_exhibit_left :: "attractions_dict \<Rightarrow> string list \<Rightarrow> int \<Rightarrow> int \<Rightarrow> bool" where
  "no_exhibit_left d ks ca ce \<longleftrightarrow>
     (case dict_getitem d (ks ! nat ca) of
        Inl e \<Rightarrow> False
      | Inr exhibits \<Rightarrow> int (length exhibits) \<le> ce) \<and>
     (\<forall>key \<in> set (drop (Suc (nat ca)) ks). dict_getitem d key = Inr [])"

text \<open>
  \<open>exhibit_lines d key\<close> are the strings \<open>"<key>: <exhibit>"\<close> of the group \<open>key\<close> of \<open>d\<close>, in
  order; \<open>lines_from d ks ca ce\<close> are those of the group at position \<open>ca\<close> of \<open>ks\<close> from its
  exhibit \<open>ce\<close> on, followed by those of the groups after it.
\<close>

definition exhibit_lines :: "attractions_dict \<Rightarrow> string \<Rightarrow> string list" where
  "exhibit_lines d key =
     (case map_of d key of
        None \<Rightarrow> []
      | Some exhibits \<Rightarrow> map (\<lambda>exhibit. key @ '': '' @ exhibit) exhibits)"

definition lines_from :: "attractions_dict \<Rightarrow> string list \<Rightarrow> int \<Rightarrow> int \<Rightarrow> string list" where
  "lines_from d ks ca ce =
     drop (nat ce) (exhibit_lines d (ks ! nat ca)) @
     concat (map (exhibit_lines d) (drop (Suc (nat ca)) ks))"

section \<open>After the last group\<close>

lemma seq_next_exhausted:
  "\<not> SequentialIterator_has_next s self \<Longrightarrow>
   SequentialIterator_next s self = (Inl IndexError, self)"
  by (simp add: SequentialIterator_has_next_def seq_next_no_key list_getitem_past_end)

lemma bus_next_exhausted:
  "\<not> BusIterator_has_next s self \<Longrightarrow> BusIterator_next s self = (Inl IndexError, self)"
  by (simp add: BusIterator_has_next_def BusIterator_next_def list_getitem_past_end)

lemma rw_next_exhausted:
  "\<not> RandomWalkIterator_has_next s self \<Longrightarrow>
   RandomWalkIterator_next s self = (Inl IndexError, self)"
  by (simp add: rw_has_next_seq rw_next_seq seq_next_exhausted)

lemma iterator_next_exhausted:
  "\<not> iterator_has_next s it \<Longrightarrow> iterator_next s it = (Inl IndexError, it)"
  by (cases it)
     (simp_all add: iterator_has_next_def iterator_next_def seq_next_exhausted
        bus_next_exhausted rw_next_exhausted)

lemma iterator_call_exhausted:
  "\<not> iterator_has_next s it \<Longrightarrow>
   iterator_call c (s, it) =
     ((case c of HasNext \<Rightarrow> Answer False | Next \<Rightarrow> Outcome (Inl IndexError)), (s, it))"
  by (cases c) (simp_all add: iterator_call_def iterator_next_exhausted)

lemma iterator_calls_exhausted:
  "\<not> iterator_has_next s it \<Longrightarrow>
   iterator_calls cs (s, it) =
     (map (\<lambda>c. case c of HasNext \<Rightarrow> Answer False | Next \<Rightarrow> Outcome (Inl IndexError)) cs,
      (s, it))"
  by (induction cs) (simp_all add: iterator_call_exhausted)

lemma iterator_calls_HasNext:
  "iterator_calls (replicate n HasNext) w =
     (replicate n (Answer (iterator_has_next (fst w) (snd w))), w)"
  by (induction n) (simp_all add: iterator_call_def)

section \<open>The calls leave the store alone\<close>

lemma iterator_call_store: "fst (snd (iterator_call c (s, it))) = s"
  by (cases c) (simp_all add: iterator_call_def split: prod.splits)

lemma iterator_calls_store: "fst (snd (iterator_calls cs (s, it))) = s"
proof (induction cs arbitrary: it)
  case Nil
  show ?case by simp
next
  case (Cons c cs)
  obtain r s' it' where c: "iterator_call c (s, it) = (r, s', it')"
    by (cases "iterator_call c (s, it)")
  with iterator_call_store[of c s it] have "s' = s" by simp
  with c Cons.IH[of it'] show ?case
    by (cases "iterator_calls cs (s, it')") simp
qed

section \<open>What the constructors make\<close>

lemma SequentialIterator_init_result:
  "SequentialIterator_init s a =
     (\<lparr>seq_attractions = a, seq_keys = list_count s,
       seq_current_attraction = 0, seq_current_exhibit = 0\<rparr>,
      s\<lparr>lists := (lists s)(list_count s := dict_keys (dicts s a)),
        list_count := Suc (list_count s)\<rparr>)"
  by (simp add: SequentialIterator_init_def new_list_def)

lemma BusIterator_init_result:
  "BusIterator_init s a =
     (\<lparr>bus_attractions = a, bus_keys = list_count s, bus_index = 0\<rparr>,
      s\<lparr>lists := (lists s)(list_count s := dict_keys (dicts s a)),
        list_count := Suc (list_count s)\<rparr>)"
  by (simp add: BusIterator_init_def new_list_def)

lemma RandomWalkIterator_init_result:
  "RandomWalkIterator_init shuffle s a =
     (\<lparr>rw_attractions = a, rw_keys = list_count s,
       rw_current_attraction = 0, rw_current_exhibit = 0\<rparr>,
      s\<lparr>lists := (lists s)(list_count s := shuffle (dict_keys (dicts s a))),
        list_count := Suc (list_count s)\<rparr>)"
  by (simp add: RandomWalkIterator_init_def new_list_def shuffle_in_place_def)

section \<open>The loop on a bus iterator\<close>

lemma bus_next_in_range:
  "0 \<le> bus_index self \<Longrightarrow> BusIterator_has_next s self \<Longrightarrow>
   BusIterator_next s self =
     (Inr (Some (lists s (bus_keys self) ! nat (bus_index self))),
      self\<lparr>bus_index := bus_index self + 1\<rparr>)"
  by (simp add: BusIterator_next_def BusIterator_has_next_def list_getitem_nth)

lemma main_loop_bus:
  "0 \<le> bus_index self \<Longrightarrow> bus_index self \<le> int (length (lists s (bus_keys self))) \<Longrightarrow>
   main_loop s (Bus self) =
     (map Some (drop (nat (bus_index self)) (lists s (bus_keys self))), None,
      Bus (self\<lparr>bus_index := int (length (lists s (bus_keys self)))\<rparr>))"
proof (induction "length (lists s (bus_keys self)) - nat (bus_index self)" arbitrary: self)
  case 0
  then have "bus_index self = int (length (lists s (bus_keys self)))" by simp
  then show ?case
    by (subst main_loop.simps)
       (simp add: iterator_has_next_def BusIterator_has_next_def)
next
  case (Suc n)
  let ?ks = "lists s (bus_keys self)"
  let ?self' = "self\<lparr>bus_index := bus_index self + 1\<rparr>"
  from Suc.hyps(2) Suc.prems have lt: "bus_index self < int (length ?ks)" by linarith
  then have hn: "BusIterator_has_next s self" by (simp add: BusIterator_has_next_def)
  have nx: "BusIterator_next s self = (Inr (Some (?ks ! nat (bus_index self))), ?self')"
    using bus_next_in_range[OF Suc.prems(1) hn] .
  have ih: "main_loop s (Bus ?self') =
     (map Some (drop (nat (bus_index ?self')) (lists s (bus_keys ?self'))), None,
      Bus (?self'\<lparr>bus_index := int (length (lists s (bus_keys ?self')))\<rparr>))"
    using Suc.hyps(2) Suc.prems lt by (intro Suc.hyps(1)) simp_all
  have d: "drop (nat (bus_index self)) ?ks =
      ?ks ! nat (bus_index self) # drop (nat (bus_index self + 1)) ?ks"
    using lt Suc.prems(1) by (simp add: Cons_nth_drop_Suc nat_add_distrib)
  show ?case
    by (subst main_loop.simps)
       (simp add: iterator_has_next_def iterator_next_def hn nx ih d)
qed

section \<open>The random walk and the sequential iterator\<close>

lemma rw_has_next_of_seq:
  "RandomWalkIterator_has_next s (rw_of_seq self) = SequentialIterator_has_next s self"
  by (simp add: rw_has_next_seq)

lemma rw_next_of_seq:
  "RandomWalkIterator_next s (rw_of_seq self) = apsnd rw_of_seq (SequentialIterator_next s self)"
  by (simp add: rw_next_seq)

lemma iterator_has_next_as_random_walk:
  "iterator_has_next s (Rnd (rw_of_seq self)) = iterator_has_next s (Seq self)"
  by (simp add: iterator_has_next_def rw_has_next_of_seq)

lemma iterator_next_as_random_walk:
  "iterator_next s (Rnd (rw_of_seq self)) = apsnd as_random_walk (iterator_next s (Seq self))"
  by (cases "SequentialIterator_next s self") (simp add: iterator_next_def rw_next_of_seq)

lemma iterator_next_Seq_is_Seq:
  "iterator_next s (Seq self) = (r, it') \<Longrightarrow> \<exists>self'. it' = Seq self'"
  by (cases "SequentialIterator_next s self") (auto simp: iterator_next_def)

lemma iterator_calls_as_random_walk:
  "iterator_calls cs (s, as_random_walk (Seq self)) =
     apsnd (apsnd as_random_walk) (iterator_calls cs (s, Seq self))"
proof (induction cs arbitrary: self)
  case Nil
  show ?case by simp
next
  case (Cons c cs)
  show ?case
  proof (cases c)
    case HasNext
    then show ?thesis
      using Cons.IH[of self]
      by (simp add: iterator_call_def iterator_has_next_as_random_walk split: prod.splits)
  next
    case Next
    obtain r it' where n: "iterator_next s (Seq self) = (r, it')"
      by (cases "iterator_next s (Seq self)")
    then obtain self' where it': "it' = Seq self'"
      using iterator_next_Seq_is_Seq by blast
    have "iterator_next s (as_random_walk (Seq self)) = (r, as_random_walk (Seq self'))"
      using n it' by (simp add: iterator_next_as_random_walk)
    with Next n it' Cons.IH[of self'] show ?thesis
      by (simp add: iterator_call_def split: prod.splits)
  qed
qed

lemma main_loop_as_random_walk_aux:
  "it = Seq self \<Longrightarrow>
   main_loop s (Rnd (rw_of_seq self)) = apsnd (apsnd as_random_walk) (main_loop s it)"
proof (induction s it arbitrary: self rule: main_loop.induct)
  case (1 s it)
  note [simp] = \<open>it = Seq self\<close>
  show ?case
  proof (cases "iterator_has_next s (Seq self)")
    case False
    then show ?thesis
      using iterator_has_next_as_random_walk[of s self]
      by (subst (1 2) main_loop.simps) simp
  next
    case True
    obtain r it' where n: "iterator_next s (Seq self) = (r, it')"
      by (cases "iterator_next s (Seq self)")
    then obtain self' where it': "it' = Seq self'"
      using iterator_next_Seq_is_Seq by blast
    have n': "iterator_next s (Rnd (rw_of_seq self)) = (r, Rnd (rw_of_seq self'))"
      using n it' by (simp add: iterator_next_as_random_walk)
    have hn': "iterator_has_next s (Rnd (rw_of_seq self))"
      using True iterator_has_next_as_random_walk[of s self] by simp
    show ?thesis
    proof (cases r)
      case (Inl e)
      have "main_loop s (Rnd (rw_of_seq self)) = ([], Some e, Rnd (rw_of_seq self'))"
        using hn' n' Inl by (subst main_loop.simps) simp
      moreover have "main_loop s (Seq self) = ([], Some e, Seq self')"
        using True n it' Inl by (subst main_loop.simps) simp
      ultimately show ?thesis by simp
    next
      case (Inr v)
      have ih: "main_loop s (Rnd (rw_of_seq self')) =
           apsnd (apsnd as_random_walk) (main_loop s it')"
        using "1.IH"[of r it' v self'] True n it' Inr by simp
      have a: "main_loop s (Rnd (rw_of_seq self)) =
          (case main_loop s (Rnd (rw_of_seq self')) of (vs, r) \<Rightarrow> (v # vs, r))"
        using hn' n' Inr by (subst main_loop.simps) simp
      have b: "main_loop s (Seq self) =
          (case main_loop s it' of (vs, r) \<Rightarrow> (v # vs, r))"
        using True n Inr by (subst main_loop.simps) simp
      show ?thesis using a b ih by (simp split: prod.splits)
    qed
  qed
qed

lemma main_loop_as_random_walk:
  "main_loop s (Rnd (rw_of_seq self)) = apsnd (apsnd as_random_walk) (main_loop s (Seq self))"
  by (rule main_loop_as_random_walk_aux) simp

section \<open>The depth of the self-call\<close>

lemma SequentialIterator_next_terminates: "SequentialIterator_next_dom (s, self)"
proof -
  have "All SequentialIterator_next_dom"
    by (rule "SequentialIterator_next.termination"
          [of "measure (\<lambda>(s, self).
             nat (int (length (lists s (seq_keys self))) - seq_current_attraction self))"])
       (auto simp: SequentialIterator_has_next_def)
  then show ?thesis by simp
qed

lemma RandomWalkIterator_next_terminates: "RandomWalkIterator_next_dom (s, self)"
proof -
  have "All RandomWalkIterator_next_dom"
    by (rule "RandomWalkIterator_next.termination"
          [of "measure (\<lambda>(s, self).
             nat (int (length (lists s (rw_keys self))) - rw_current_attraction self))"])
       (auto simp: RandomWalkIterator_has_next_def)
  then show ?thesis by simp
qed

lemma seq_depth_branches:
  "SequentialIterator_next_depth s self =
     (case list_getitem (lists s (seq_keys self)) (seq_current_attraction self) of
        Inl e \<Rightarrow> 0
      | Inr key \<Rightarrow>
          (case dict_getitem (dicts s (seq_attractions self)) key of
             Inl e \<Rightarrow> 0
           | Inr exhibits \<Rightarrow>
               if seq_current_exhibit self < int (length exhibits) then 0
               else if SequentialIterator_has_next s (seq_advance self)
                    then Suc (SequentialIterator_next_depth s (seq_advance self))
                    else 0))"
  by (subst SequentialIterator_next_depth.simps)
     (simp add: Let_def seq_advance_def split: sum.splits)

lemma seq_depth_bound:
  "SequentialIterator_next_depth s self \<le>
     nat (int (length (lists s (seq_keys self))) - seq_current_attraction self - 1)"
proof (induction s self rule: seq_next_induct)
  case (step s self)
  show ?case
  proof (cases s self rule: seq_next_branches)
    case (Advance key exhibits)
    have "SequentialIterator_next_depth s self =
        Suc (SequentialIterator_next_depth s (seq_advance self))"
      using Advance(1-4) by (simp add: seq_depth_branches)
    moreover note step.IH[OF Advance(1-4)]
    moreover have "seq_current_attraction self + 1 < int (length (lists s (seq_keys self)))"
      using Advance(4) by (simp add: SequentialIterator_has_next_def seq_advance_def)
    ultimately show ?thesis by (simp add: seq_advance_def)
  qed (simp_all add: seq_depth_branches)
qed

lemma seq_depth_positive:
  assumes "0 < SequentialIterator_next_depth s self"
  shows "SequentialIterator_next_depth s self =
           Suc (SequentialIterator_next_depth s (seq_advance self)) \<and>
         SequentialIterator_next s self = SequentialIterator_next s (seq_advance self) \<and>
         SequentialIterator_has_next s (seq_advance self)"
proof (cases s self rule: seq_next_branches)
  case (Advance key exhibits)
  then show ?thesis by (simp add: seq_depth_branches)
qed (use assms in \<open>simp_all add: seq_depth_branches\<close>)

lemma rw_depth_seq:
  "RandomWalkIterator_next_depth s self = SequentialIterator_next_depth s (seq_of_rw self)"
proof (induction s self rule: RandomWalkIterator_next_depth.induct)
  case (1 s self)
  let ?self' = "self\<lparr>rw_current_attraction := rw_current_attraction self + 1,
                        rw_current_exhibit := 0\<rparr>"
  have adv: "seq_advance (seq_of_rw self) = seq_of_rw ?self'"
    by (simp add: seq_advance_def seq_of_rw_def)
  show ?case
  proof (cases "list_getitem (lists s (rw_keys self)) (rw_current_attraction self)")
    case (Inl e)
    then show ?thesis
      by (subst RandomWalkIterator_next_depth.simps) (simp add: seq_depth_branches)
  next
    case key: (Inr key)
    show ?thesis
    proof (cases "dict_getitem (dicts s (rw_attractions self)) key")
      case (Inl e)
      with key show ?thesis
        by (subst RandomWalkIterator_next_depth.simps) (simp add: seq_depth_branches)
    next
      case ex: (Inr exhibits)
      show ?thesis
      proof (cases "rw_current_exhibit self < int (length exhibits)")
        case True
        with key ex show ?thesis
          by (subst RandomWalkIterator_next_depth.simps) (simp add: seq_depth_branches)
      next
        case False
        show ?thesis
        proof (cases "RandomWalkIterator_has_next s ?self'")
          case True
          from "1.IH"[OF key ex False refl True] True key ex False
          show ?thesis
            by (subst RandomWalkIterator_next_depth.simps)
               (simp add: seq_depth_branches adv rw_has_next_seq Let_def)
        next
          case F: False
          with key ex False show ?thesis
            by (subst RandomWalkIterator_next_depth.simps)
               (simp add: seq_depth_branches adv rw_has_next_seq Let_def)
        qed
      qed
    qed
  qed
qed

lemma rw_of_seq_simps [simp]:
  "rw_attractions (rw_of_seq self) = seq_attractions self"
  "rw_keys (rw_of_seq self) = seq_keys self"
  "rw_current_attraction (rw_of_seq self) = seq_current_attraction self"
  "rw_current_exhibit (rw_of_seq self) = seq_current_exhibit self"
  by (simp_all add: rw_of_seq_def)

lemma seq_next_invariant:
  assumes "0 \<le> seq_current_attraction self"
    and "seq_current_attraction self \<le> int (length (lists s (seq_keys self)))"
  shows "0 \<le> seq_current_attraction (snd (SequentialIterator_next s self)) \<and>
         seq_current_attraction (snd (SequentialIterator_next s self)) \<le>
           int (length (lists s (seq_keys (snd (SequentialIterator_next s self)))))"
proof -
  obtain r self' where n: "SequentialIterator_next s self = (r, self')"
    by (cases "SequentialIterator_next s self")
  from SequentialIterator_next_frame[OF n] seq_next_cursor_bound[OF n assms(2)] assms(1) n
  show ?thesis by simp
qed

section \<open>When next returns None\<close>

lemma seq_next_None:
  assumes "fst (SequentialIterator_next s self) = Inr None"
  shows "SequentialIterator_has_next s self \<and>
     seq_current_attraction (snd (SequentialIterator_next s self)) =
       int (length (lists s (seq_keys self))) \<and>
     seq_current_exhibit (snd (SequentialIterator_next s self)) = 0 \<and>
     (0 \<le> seq_current_attraction self \<longrightarrow>
        (\<exists>exhibits.
           dict_getitem (dicts s (seq_attractions self))
             (lists s (seq_keys self) ! nat (seq_current_attraction self)) = Inr exhibits \<and>
           int (length exhibits) \<le> seq_current_exhibit self) \<and>
        (\<forall>j. nat (seq_current_attraction self) < j \<and> j < length (lists s (seq_keys self)) \<longrightarrow>
           dict_getitem (dicts s (seq_attractions self)) (lists s (seq_keys self) ! j) = Inr []))"
  using assms
proof (induction s self rule: seq_next_induct)
  case (step s self)
  let ?ks = "lists s (seq_keys self)"
  let ?ca = "seq_current_attraction self"
  show ?case
  proof (cases s self rule: seq_next_branches)
    case (Advance key exhibits)
    from step.prems Advance(5)
    have n: "fst (SequentialIterator_next s (seq_advance self)) = Inr None" by simp
    note ih = step.IH[OF Advance(1-4) n]
    have hn: "SequentialIterator_has_next s self"
      using list_getitem_Inr_less[OF Advance(1)] by (simp add: SequentialIterator_has_next_def)
    have tail: "dict_getitem (dicts s (seq_attractions self)) (?ks ! j) = Inr []"
      if "0 \<le> ?ca" "nat ?ca < j" "j < length ?ks" for j
    proof (cases "j = nat (?ca + 1)")
      case True
      with ih that(1) show ?thesis by (auto simp: seq_advance_def)
    next
      case False
      with that have "nat (?ca + 1) < j" by linarith
      with ih that show ?thesis by (simp add: seq_advance_def)
    qed
    have cur: "\<exists>ex. dict_getitem (dicts s (seq_attractions self)) (?ks ! nat ?ca) = Inr ex \<and>
         int (length ex) \<le> seq_current_exhibit self" if "0 \<le> ?ca"
      using list_getitem_Inr_nth[OF that Advance(1)] Advance(2,3) by auto
    from ih hn tail cur Advance(5) show ?thesis
      by (simp add: seq_advance_def)
  next
    case (Finish key exhibits)
    have lt: "?ca < int (length ?ks)" by (rule list_getitem_Inr_less[OF Finish(1)])
    then have hn: "SequentialIterator_has_next s self"
      by (simp add: SequentialIterator_has_next_def)
    from Finish(4) lt have eq: "?ca + 1 = int (length ?ks)"
      by (simp add: SequentialIterator_has_next_def seq_advance_def)
    have cur: "\<exists>ex. dict_getitem (dicts s (seq_attractions self)) (?ks ! nat ?ca) = Inr ex \<and>
         int (length ex) \<le> seq_current_exhibit self" if "0 \<le> ?ca"
      using list_getitem_Inr_nth[OF that Finish(1)] Finish(2,3) by auto
    have none: "\<not> (nat ?ca < j \<and> j < length ?ks)" if "0 \<le> ?ca" for j
      using eq that by linarith
    from hn eq cur none Finish(5) show ?thesis
      by (auto simp: seq_advance_def)
  qed (use step.prems in simp_all)
qed

lemma seq_next_None_exhausts:
  assumes "fst (SequentialIterator_next s self) = Inr None"
  shows "\<not> SequentialIterator_has_next s (snd (SequentialIterator_next s self))"
proof -
  obtain r self' where n: "SequentialIterator_next s self = (r, self')"
    by (cases "SequentialIterator_next s self")
  from seq_next_None[OF assms] SequentialIterator_next_frame[OF n] n
  show ?thesis by (simp add: SequentialIterator_has_next_def)
qed

lemma bus_next_not_None: "fst (BusIterator_next s self) \<noteq> Inr None"
  by (simp add: BusIterator_next_def split: sum.splits)

lemma seq_next_None_no_exhibit_left:
  assumes "fst (SequentialIterator_next s self) = Inr None"
    and "0 \<le> seq_current_attraction self"
  shows "no_exhibit_left (dicts s (seq_attractions self)) (lists s (seq_keys self))
           (seq_current_attraction self) (seq_current_exhibit self)"
proof -
  let ?d = "dicts s (seq_attractions self)" and ?ks = "lists s (seq_keys self)"
  let ?n = "nat (seq_current_attraction self)"
  note f = seq_next_None[OF assms(1)]
  have "dict_getitem ?d key = Inr []" if "key \<in> set (drop (Suc ?n) ?ks)" for key
  proof -
    from that obtain i where i: "i < length (drop (Suc ?n) ?ks)" "drop (Suc ?n) ?ks ! i = key"
      by (auto simp: in_set_conv_nth)
    then have "key = ?ks ! (Suc ?n + i)" "Suc ?n + i < length ?ks" by auto
    with f assms(2) show ?thesis by simp
  qed
  with f assms(2) show ?thesis by (auto simp: no_exhibit_left_def)
qed

section \<open>The loop on a walking iterator\<close>

lemma main_loop_Seq_exhibit:
  assumes "SequentialIterator_has_next s self"
    and "SequentialIterator_next s self = (Inr v, self')"
  shows "main_loop s (Seq self) =
     (v # fst (main_loop s (Seq self')), snd (main_loop s (Seq self')))"
  using assms
  by (subst main_loop.simps)
     (simp add: iterator_has_next_def iterator_next_def split: prod.splits)

lemma main_loop_Seq_advance:
  assumes "SequentialIterator_has_next s self"
    and "SequentialIterator_has_next s (seq_advance self)"
    and "SequentialIterator_next s self = SequentialIterator_next s (seq_advance self)"
  shows "main_loop s (Seq self) = main_loop s (Seq (seq_advance self))"
  using assms
  by (subst (1 2) main_loop.simps) (simp add: iterator_has_next_def iterator_next_def)

lemma main_loop_Seq_finish:
  assumes "SequentialIterator_has_next s self"
    and "\<not> SequentialIterator_has_next s (seq_advance self)"
    and "SequentialIterator_next s self = (Inr None, seq_advance self)"
  shows "main_loop s (Seq self) = ([None], None, Seq (seq_advance self))"
proof -
  have "main_loop s (Seq (seq_advance self)) = ([], None, Seq (seq_advance self))"
    using assms(2) by (subst main_loop.simps) (simp add: iterator_has_next_def)
  with main_loop_Seq_exhibit[OF assms(1,3)] show ?thesis by simp
qed

text \<open>
  From any position inside the key list, the loop yields the lines that are left and
  then one \<open>None\<close>.
\<close>

lemma main_loop_Seq_from_aux:
  assumes "wf (r :: ((nat \<times> nat) \<times> (nat \<times> nat)) set)" and "r = less_than <*lex*> less_than"
  shows "seq_left s self = p \<Longrightarrow>
    \<forall>k \<in> set (lists s (seq_keys self)). map_of (dicts s (seq_attractions self)) k \<noteq> None \<Longrightarrow>
    0 \<le> seq_current_attraction self \<Longrightarrow>
    seq_current_attraction self < int (length (lists s (seq_keys self))) \<Longrightarrow>
    0 \<le> seq_current_exhibit self \<Longrightarrow>
    main_loop s (Seq self) =
     (map Some (lines_from (dicts s (seq_attractions self)) (lists s (seq_keys self))
                  (seq_current_attraction self) (seq_current_exhibit self)) @ [None],
      None,
      Seq (self\<lparr>seq_current_attraction := int (length (lists s (seq_keys self))),
                seq_current_exhibit := 0\<rparr>))"
  using assms(1)
proof (induction p arbitrary: self rule: wf_induct_rule)
  case (less p)
  note prems = less.prems(2-5)
  note lex = assms(2)
  let ?d = "dicts s (seq_attractions self)" and ?ks = "lists s (seq_keys self)"
  let ?ca = "seq_current_attraction self" and ?ce = "seq_current_exhibit self"
  have hn: "SequentialIterator_has_next s self"
    using prems(3) by (simp add: SequentialIterator_has_next_def)
  have key: "list_getitem ?ks ?ca = Inr (?ks ! nat ?ca)"
    using prems(2,3) by (rule list_getitem_nth)
  have inks: "?ks ! nat ?ca \<in> set ?ks"
    using prems(2,3) by simp
  then obtain exhibits where ex: "map_of ?d (?ks ! nat ?ca) = Some exhibits"
    using prems(1) by blast
  have lines: "exhibit_lines ?d (?ks ! nat ?ca) =
      map (\<lambda>exhibit. (?ks ! nat ?ca) @ '': '' @ exhibit) exhibits"
    by (simp add: exhibit_lines_def ex)
  show ?case
  proof (cases s self rule: seq_next_branches)
    case (IndexError e)
    with key show ?thesis by simp
  next
    case (KeyError k e)
    with key ex show ?thesis by (simp add: dict_getitem_Inl)
  next
    case (ExhibitError k exs e)
    with prems(4) list_getitem_nth[of ?ce exs] show ?thesis by simp
  next
    case (Exhibit k exs exhibit)
    let ?self' = "self\<lparr>seq_current_exhibit := ?ce + 1\<rparr>"
    from Exhibit(1,2) key ex have k: "k = ?ks ! nat ?ca" "exs = exhibits"
      by (simp_all add: dict_getitem_Inr)
    from Exhibit(3,4) prems(4) k have e: "exhibit = exhibits ! nat ?ce"
      "nat ?ce < length exhibits"
      using list_getitem_Inr_nth[of ?ce exs exhibit] by simp_all
    have prog: "(seq_left s ?self', p) \<in> r"
      using seq_next_progress[OF hn Exhibit(5)] less.prems(1) lex by simp
    have ih: "main_loop s (Seq ?self') =
       (map Some (lines_from ?d ?ks ?ca (?ce + 1)) @ [None], None,
        Seq (self\<lparr>seq_current_attraction := int (length ?ks), seq_current_exhibit := 0\<rparr>))"
      using less.IH[OF prog refl] prems by simp
    have d: "drop (nat ?ce) (exhibit_lines ?d (?ks ! nat ?ca)) =
        (k @ '': '' @ exhibit) # drop (nat (?ce + 1)) (exhibit_lines ?d (?ks ! nat ?ca))"
      using e k prems(4)
      by (simp add: lines nat_add_distrib flip: Cons_nth_drop_Suc)
    show ?thesis
      using main_loop_Seq_exhibit[OF hn Exhibit(5)] ih d
      by (simp add: lines_from_def)
  next
    case (Advance k exs)
    from Advance(1,2) key ex have k: "k = ?ks ! nat ?ca" "exs = exhibits"
      by (simp_all add: dict_getitem_Inr)
    have lt: "?ca + 1 < int (length ?ks)"
      using Advance(4) by (simp add: SequentialIterator_has_next_def seq_advance_def)
    have prog: "(seq_left s (seq_advance self), p) \<in> r"
      using prems(3) less.prems(1) lex by (auto simp: seq_left_def seq_advance_def)
    have ih: "main_loop s (Seq (seq_advance self)) =
       (map Some (lines_from ?d ?ks (?ca + 1) 0) @ [None], None,
        Seq (self\<lparr>seq_current_attraction := int (length ?ks), seq_current_exhibit := 0\<rparr>))"
      using less.IH[OF prog refl] prems lt by (simp add: seq_advance_def)
    have d0: "drop (nat ?ce) (exhibit_lines ?d (?ks ! nat ?ca)) = []"
      using Advance(3) k by (simp add: lines)
    have d1: "drop (Suc (nat ?ca)) ?ks =
        ?ks ! Suc (nat ?ca) # drop (Suc (Suc (nat ?ca))) ?ks"
      using lt prems(2) by (simp add: Cons_nth_drop_Suc)
    have "lines_from ?d ?ks ?ca ?ce = lines_from ?d ?ks (?ca + 1) 0"
      using prems(2) by (simp add: lines_from_def d0 d1 nat_add_distrib)
    with main_loop_Seq_advance[OF hn Advance(4,5)] ih show ?thesis by simp
  next
    case (Finish k exs)
    from Finish(1,2) key ex have k: "k = ?ks ! nat ?ca" "exs = exhibits"
      by (simp_all add: dict_getitem_Inr)
    have eq: "?ca + 1 = int (length ?ks)"
      using Finish(4) prems(3)
      by (simp add: SequentialIterator_has_next_def seq_advance_def)
    have d0: "drop (nat ?ce) (exhibit_lines ?d (?ks ! nat ?ca)) = []"
      using Finish(3) k by (simp add: lines)
    have d1: "drop (Suc (nat ?ca)) ?ks = []"
      using eq prems(2) by simp
    have "seq_advance self =
        self\<lparr>seq_current_attraction := int (length ?ks), seq_current_exhibit := 0\<rparr>"
      using eq by (simp add: seq_advance_def)
    with main_loop_Seq_finish[OF hn Finish(4,5)] show ?thesis
      by (simp add: lines_from_def d0 d1)
  qed
qed

lemma main_loop_Seq_from:
  assumes "\<forall>k \<in> set (lists s (seq_keys self)). map_of (dicts s (seq_attractions self)) k \<noteq> None"
    and "0 \<le> seq_current_attraction self"
    and "seq_current_attraction self < int (length (lists s (seq_keys self)))"
    and "0 \<le> seq_current_exhibit self"
  shows "main_loop s (Seq self) =
     (map Some (lines_from (dicts s (seq_attractions self)) (lists s (seq_keys self))
                  (seq_current_attraction self) (seq_current_exhibit self)) @ [None],
      None,
      Seq (self\<lparr>seq_current_attraction := int (length (lists s (seq_keys self))),
                seq_current_exhibit := 0\<rparr>))"
  by (rule main_loop_Seq_from_aux[OF wf_lex_prod[OF wf_less_than wf_less_than] refl refl assms])

lemma lines_from_start:
  "ks \<noteq> [] \<Longrightarrow> lines_from d ks 0 0 = concat (map (exhibit_lines d) ks)"
  by (cases ks) (simp_all add: lines_from_def)

lemma main_loop_Seq_start:
  assumes "\<forall>k \<in> set (lists s (seq_keys self)). map_of (dicts s (seq_attractions self)) k \<noteq> None"
    and "seq_current_attraction self = 0" and "seq_current_exhibit self = 0"
  shows "main_loop s (Seq self) =
     (map Some (concat (map (exhibit_lines (dicts s (seq_attractions self)))
                           (lists s (seq_keys self)))) @
      (if lists s (seq_keys self) = [] then [] else [None]),
      None,
      Seq (self\<lparr>seq_current_attraction := int (length (lists s (seq_keys self)))\<rparr>))"
proof (cases "lists s (seq_keys self) = []")
  case True
  then have "\<not> iterator_has_next s (Seq self)"
    by (simp add: iterator_has_next_def SequentialIterator_has_next_def assms(2))
  then have "main_loop s (Seq self) = ([], None, Seq self)"
    by (subst main_loop.simps) simp
  moreover have "self\<lparr>seq_current_attraction := 0\<rparr> = self"
    using assms(2) by simp
  ultimately show ?thesis using True by simp
next
  case False
  have "self\<lparr>seq_current_attraction := int (length (lists s (seq_keys self))),
             seq_current_exhibit := 0\<rparr> =
        self\<lparr>seq_current_attraction := int (length (lists s (seq_keys self)))\<rparr>"
    using assms(3) by simp
  with main_loop_Seq_from[OF assms(1)] False assms(2,3) show ?thesis
    by (simp add: lines_from_start)
qed

lemma exhibit_lines_entries:
  assumes "distinct (map fst d)"
  shows "map (exhibit_lines d) (map fst d) =
         map (\<lambda>(key, exhibits). map (\<lambda>exhibit. key @ '': '' @ exhibit) exhibits) d"
proof -
  have "exhibit_lines d (fst e) =
        (case e of (key, exhibits) \<Rightarrow> map (\<lambda>exhibit. key @ '': '' @ exhibit) exhibits)"
    if "e \<in> set d" for e
  proof -
    obtain key exhibits where e: "e = (key, exhibits)" by (cases e)
    with that assms have "map_of d key = Some exhibits" by simp
    with e show ?thesis by (simp add: exhibit_lines_def)
  qed
  then show ?thesis by simp
qed

lemma length_concat_lines:
  "length (concat (map (\<lambda>(key, exhibits). map (\<lambda>exhibit. key @ '': '' @ exhibit) exhibits) d)) =
   sum_list (map (\<lambda>(key, exhibits). length exhibits) d)"
  by (induction d) auto

lemma length_concat_sum_list: "length (concat xss) = sum_list (map length xss)"
  by (induction xss) auto

lemma sum_list_perm:
  fixes f :: "'a \<Rightarrow> nat"
  shows "mset xs = mset ys \<Longrightarrow> sum_list (map f xs) = sum_list (map f ys)"
proof -
  assume "mset xs = mset ys"
  then have "mset (map f xs) = mset (map f ys)" by simp
  then have "sum_mset (mset (map f xs)) = sum_mset (mset (map f ys))" by (rule arg_cong)
  then show ?thesis by (simp only: sum_mset_sum_list)
qed

lemma main_loop_sequential_init:
  assumes "distinct (map fst (dicts s a))"
  shows "main_loop (snd (SequentialIterator_init s a)) (Seq (fst (SequentialIterator_init s a))) =
     (map Some (concat (map (\<lambda>(key, exhibits). map (\<lambda>exhibit. key @ '': '' @ exhibit) exhibits)
                           (dicts s a))) @
      (if dicts s a = [] then [] else [None]),
      None,
      Seq ((fst (SequentialIterator_init s a))
             \<lparr>seq_current_attraction := int (length (dicts s a))\<rparr>))"
proof -
  let ?it = "fst (SequentialIterator_init s a)" and ?s = "snd (SequentialIterator_init s a)"
  have k: "lists ?s (seq_keys ?it) = map fst (dicts s a)"
    and d: "dicts ?s (seq_attractions ?it) = dicts s a"
    and c: "seq_current_attraction ?it = 0" "seq_current_exhibit ?it = 0"
    by (simp_all add: SequentialIterator_init_result dict_keys_def)
  have "\<forall>k \<in> set (lists ?s (seq_keys ?it)). map_of (dicts ?s (seq_attractions ?it)) k \<noteq> None"
    unfolding k d by (simp add: map_of_eq_None_iff)
  from main_loop_Seq_start[OF this c, unfolded k d exhibit_lines_entries[OF assms]]
  show ?thesis by simp
qed

lemma main_loop_random_walk_init:
  assumes "mset (shuffle (dict_keys (dicts s a))) = mset (dict_keys (dicts s a))"
  shows "fst (main_loop (snd (RandomWalkIterator_init shuffle s a))
                (Rnd (fst (RandomWalkIterator_init shuffle s a)))) =
     map Some (concat (map (exhibit_lines (dicts s a)) (shuffle (dict_keys (dicts s a))))) @
     (if dicts s a = [] then [] else [None])"
proof -
  let ?s = "snd (RandomWalkIterator_init shuffle s a)"
  let ?self = "\<lparr>seq_attractions = a, seq_keys = list_count s,
       seq_current_attraction = 0, seq_current_exhibit = 0\<rparr>"
  have it: "fst (RandomWalkIterator_init shuffle s a) = rw_of_seq ?self"
    by (simp add: RandomWalkIterator_init_result rw_of_seq_def)
  have k: "lists ?s (seq_keys ?self) = shuffle (dict_keys (dicts s a))"
    and d: "dicts ?s (seq_attractions ?self) = dicts s a"
    by (simp_all add: RandomWalkIterator_init_result)
  have "set (shuffle (dict_keys (dicts s a))) = set (dict_keys (dicts s a))"
    using assms by (rule mset_eq_setD)
  then have "\<forall>k \<in> set (lists ?s (seq_keys ?self)). map_of (dicts ?s (seq_attractions ?self)) k \<noteq> None"
    unfolding k d by (simp add: map_of_eq_None_iff dict_keys_def)
  from main_loop_Seq_start[OF this] have
    "fst (main_loop ?s (Seq ?self)) =
       map Some (concat (map (exhibit_lines (dicts s a)) (shuffle (dict_keys (dicts s a))))) @
       (if shuffle (dict_keys (dicts s a)) = [] then [] else [None])"
    unfolding k d by simp
  moreover have "shuffle (dict_keys (dicts s a)) = [] \<longleftrightarrow> dicts s a = []"
    using assms by (metis mset_zero_iff dict_keys_def map_is_Nil_conv)
  ultimately show ?thesis
    unfolding it main_loop_as_random_walk by (simp only: fst_apsnd)
qed

text \<open>
  What \<open>main\<close> prints when the shuffle reverses the keys: each of the two walks ends with a
  line \<open>None\<close>.
\<close>

lemma main_prints_None:
  "main rev empty_store =
     ([Peshkom,
       Ermitazh @ '': '' @ Kartina_1, Ermitazh @ '': '' @ Kartina_2,
       Ermitazh @ '': '' @ Statuya_1,
       Isaakievskiy_sobor @ '': '' @ Mozaika_1, Isaakievskiy_sobor @ '': '' @ Lyustra,
       Isaakievskiy_sobor @ '': '' @ Vitrazh,
       Petropavlovskaya_krepost @ '': '' @ Pushka,
       Petropavlovskaya_krepost @ '': '' @ Muzey_istorii,
       ''None'',
       Na_avtobuse,
       Ermitazh, Isaakievskiy_sobor, Petropavlovskaya_krepost,
       Sluchaynaya_progulka,
       Petropavlovskaya_krepost @ '': '' @ Pushka,
       Petropavlovskaya_krepost @ '': '' @ Muzey_istorii,
       Isaakievskiy_sobor @ '': '' @ Mozaika_1, Isaakievskiy_sobor @ '': '' @ Lyustra,
       Isaakievskiy_sobor @ '': '' @ Vitrazh,
       Ermitazh @ '': '' @ Kartina_1, Ermitazh @ '': '' @ Kartina_2,
       Ermitazh @ '': '' @ Statuya_1,
       ''None''],
      None)"
  by code_simp

section \<open>The claims\<close>

subsection \<open>C1\<close>

text \<open>
  Claim C1: for the sequential and the random strategy, in every reachable state,
  \<open>has_next()\<close> is true if and only if the next call of \<open>next()\<close> yields a value, a string
  \<open>"<group>: <item>"\<close>. The docstring of \<open>Iterator.has_next\<close> says the same (true when there
  is a next element, false otherwise), and the two classes miss it: their \<open>has_next\<close>
  compares the cursor over the groups only. On \<open>{"A": ["x", "y"], "B": []}\<close>, after the two
  exhibits of \<open>A\<close> have been returned, \<open>has_next()\<close> answers true and the call of \<open>next()\<close>
  that follows returns \<open>None\<close>; the same happens to the random walk, here with the keys
  shuffled into the order \<open>B, A\<close>.
\<close>

theorem has_next_true_then_next_None:
  "fst (iterator_calls [Next, Next, HasNext, Next]
          (snd (SequentialIterator_init example_store 0),
           Seq (fst (SequentialIterator_init example_store 0)))) =
     [Outcome (Inr (Some ''A: x'')), Outcome (Inr (Some ''A: y'')), Answer True,
      Outcome (Inr None)] \<and>
   fst (iterator_calls [Next, Next, HasNext, Next]
          (snd (RandomWalkIterator_init rev example_store 0),
           Rnd (fst (RandomWalkIterator_init rev example_store 0)))) =
     [Outcome (Inr (Some ''A: x'')), Outcome (Inr (Some ''A: y'')), Answer True,
      Outcome (Inr None)]"
  by code_simp

subsection \<open>C2\<close>

text \<open>
  Claim C2, as stated: for every strategy kind, \<open>next()\<close> called where \<open>has_next()\<close> is false
  fails with an \<open>ExhaustedIterator\<close> error. The source has no such exception. Both the bus
  iterator after its two groups and the sequential iterator after its loop has ended
  answer false to \<open>has_next()\<close>, and what \<open>next()\<close> raises there is not
  \<open>ExhaustedIterator\<close>.
\<close>

theorem next_after_exhaustion_not_ExhaustedIterator:
  "\<not> iterator_has_next (fst (after_calls [Next, Next] example_bus))
        (snd (after_calls [Next, Next] example_bus)) \<and>
   fst (iterator_next (fst (after_calls [Next, Next] example_bus))
        (snd (after_calls [Next, Next] example_bus))) \<noteq> Inl ExhaustedIterator \<and>
   \<not> iterator_has_next (fst (after_calls [Next, Next, Next] example_seq))
        (snd (after_calls [Next, Next, Next] example_seq)) \<and>
   fst (iterator_next (fst (after_calls [Next, Next, Next] example_seq))
        (snd (after_calls [Next, Next, Next] example_seq))) \<noteq> Inl ExhaustedIterator"
  by code_simp

text \<open>
  Claim C2, amended: for every strategy kind, \<open>next()\<close> called where \<open>has_next()\<close> is false
  raises \<open>IndexError\<close>, the exception of the subscript \<open>self._keys[...]\<close>. No statement of
  \<open>next\<close> catches it, so it is what the caller receives; the iterator is left as it was,
  and the result is never a silent \<open>None\<close>.
\<close>

theorem next_after_exhaustion_raises_IndexError:
  "\<not> iterator_has_next s it \<Longrightarrow>
   iterator_call Next (s, it) = (Outcome (Inl IndexError), (s, it)) \<and>
   iterator_next s it = (Inl IndexError, it) \<and>
   fst (iterator_next s it) \<noteq> Inr None"
  by (simp add: iterator_call_def iterator_next_exhausted)

text \<open>
  The amended claim C2 on the bus iterator that has returned both groups.
\<close>

theorem next_after_exhaustion_raises_IndexError_witness:
  "\<not> iterator_has_next (fst (after_calls [Next, Next] example_bus))
        (snd (after_calls [Next, Next] example_bus)) \<and>
   iterator_call Next (fst (after_calls [Next, Next] example_bus),
                       snd (after_calls [Next, Next] example_bus)) =
     (Outcome (Inl IndexError), (fst (after_calls [Next, Next] example_bus),
                       snd (after_calls [Next, Next] example_bus)))"
proof -
  have h: "\<not> iterator_has_next (fst (after_calls [Next, Next] example_bus))
        (snd (after_calls [Next, Next] example_bus))"
    by code_simp
  from next_after_exhaustion_raises_IndexError[OF h] h show ?thesis by simp
qed

subsection \<open>C3\<close>

text \<open>
  Claim C3: the loop of the client on a sequential (or random) iterator obtains exactly as
  many values as the groups have items, each a string \<open>"<group>: <item>"\<close>; on
  \<open>{"A": ["x", "y"], "B": []}\<close> exactly \<open>"A: x"\<close> and \<open>"A: y"\<close>. The code hands the loop one
  value more whenever the collection has a group: the strings of all items, in the order
  of the keys, and then \<open>None\<close>, which \<open>main\<close> prints. The last call of \<open>next()\<close> is made with
  \<open>has_next()\<close> true and finds no exhibit left. For the random walk the hypothesis on
  \<open>shuffle\<close> is that it rearranges the keys, as \<open>random.shuffle\<close> does.
\<close>

theorem walking_loops_end_with_None:
  assumes "distinct (map fst (dicts s a))"
    and "mset (shuffle (dict_keys (dicts s a))) = mset (dict_keys (dicts s a))"
  shows
   "fst (main_loop (snd (SequentialIterator_init s a))
           (Seq (fst (SequentialIterator_init s a)))) =
      map Some (concat (map (\<lambda>(key, exhibits). map (\<lambda>exhibit. key @ '': '' @ exhibit) exhibits)
                            (dicts s a))) @
      (if dicts s a = [] then [] else [None]) \<and>
    length (fst (main_loop (snd (SequentialIterator_init s a))
                   (Seq (fst (SequentialIterator_init s a))))) =
      sum_list (map (\<lambda>(key, exhibits). length exhibits) (dicts s a)) +
      (if dicts s a = [] then 0 else 1) \<and>
    fst (main_loop (snd (RandomWalkIterator_init shuffle s a))
           (Rnd (fst (RandomWalkIterator_init shuffle s a)))) =
      map Some (concat (map (exhibit_lines (dicts s a)) (shuffle (dict_keys (dicts s a))))) @
      (if dicts s a = [] then [] else [None]) \<and>
    length (fst (main_loop (snd (RandomWalkIterator_init shuffle s a))
                   (Rnd (fst (RandomWalkIterator_init shuffle s a))))) =
      sum_list (map (\<lambda>(key, exhibits). length exhibits) (dicts s a)) +
      (if dicts s a = [] then 0 else 1)"
proof -
  let ?d = "dicts s a"
  let ?fmt = "\<lambda>(key, exhibits). map (\<lambda>exhibit. key @ '': '' @ exhibit) exhibits"
  have seq: "fst (main_loop (snd (SequentialIterator_init s a))
           (Seq (fst (SequentialIterator_init s a)))) =
      map Some (concat (map ?fmt ?d)) @ (if ?d = [] then [] else [None])"
    by (simp add: main_loop_sequential_init[OF assms(1)])
  have rnd: "fst (main_loop (snd (RandomWalkIterator_init shuffle s a))
           (Rnd (fst (RandomWalkIterator_init shuffle s a)))) =
      map Some (concat (map (exhibit_lines ?d) (shuffle (dict_keys ?d)))) @
      (if ?d = [] then [] else [None])"
    using main_loop_random_walk_init[of shuffle s a] assms(2) by blast
  have len: "length (concat (map ?fmt ?d)) = sum_list (map (\<lambda>(key, exhibits). length exhibits) ?d)"
    by (rule length_concat_lines)
  have "length (concat (map (exhibit_lines ?d) (shuffle (dict_keys ?d)))) =
        sum_list (map (\<lambda>k. length (exhibit_lines ?d k)) (shuffle (dict_keys ?d)))"
    by (simp add: length_concat_sum_list comp_def)
  also have "\<dots> = sum_list (map (\<lambda>k. length (exhibit_lines ?d k)) (dict_keys ?d))"
    using assms(2) by (rule sum_list_perm)
  also have "\<dots> = length (concat (map (exhibit_lines ?d) (map fst ?d)))"
    by (simp add: length_concat_sum_list comp_def dict_keys_def)
  also have "\<dots> = sum_list (map (\<lambda>(key, exhibits). length exhibits) ?d)"
    unfolding exhibit_lines_entries[OF assms(1)] by (rule len)
  finally have lenr: "length (concat (map (exhibit_lines ?d) (shuffle (dict_keys ?d)))) =
        sum_list (map (\<lambda>(key, exhibits). length exhibits) ?d)" .
  show ?thesis
    unfolding seq rnd using len lenr by simp
qed

text \<open>
  Claim C3 on \<open>{"A": ["x", "y"], "B": []}\<close>: the loop receives three values, the third is
  \<open>None\<close>.
\<close>

theorem walking_loops_end_with_None_witness:
  "distinct (map fst (dicts example_store 0)) \<and>
   mset (rev (dict_keys (dicts example_store 0))) = mset (dict_keys (dicts example_store 0)) \<and>
   dicts example_store 0 = [(''A'', [''x'', ''y'']), (''B'', [])] \<and>
   fst (main_loop (snd (SequentialIterator_init example_store 0))
          (Seq (fst (SequentialIterator_init example_store 0)))) =
     [Some ''A: x'', Some ''A: y'', None] \<and>
   fst (main_loop (snd (RandomWalkIterator_init rev example_store 0))
          (Rnd (fst (RandomWalkIterator_init rev example_store 0)))) =
     [Some ''A: x'', Some ''A: y'', None]"
proof -
  have d: "dicts example_store 0 = [(''A'', [''x'', ''y'']), (''B'', [])]"
    by code_simp
  have h: "distinct (map fst (dicts example_store 0))"
    "mset (rev (dict_keys (dicts example_store 0))) = mset (dict_keys (dicts example_store 0))"
    by (simp_all add: d)
  from walking_loops_end_with_None[of example_store 0 rev] h d show ?thesis
    by (simp add: exhibit_lines_def dict_keys_def)
qed

subsection \<open>C4\<close>

text \<open>
  Claim C4: the bus strategy visits groups only, in the insertion order of the collection.
  A new bus iterator starts at index 0 over a list of the group names in insertion order;
  \<open>has_next()\<close> is true exactly while the index is below the number of groups; \<open>next()\<close>
  returns the bare name at the index and moves the index by one; and the loop of the
  client receives every group name once, in order, and nothing else, so as many values
  as there are groups, whatever the number of items of each group.
\<close>

theorem bus_iterator_walks_groups_in_order:
  "bus_index (fst (BusIterator_init s a)) = 0 \<and>
   lists (snd (BusIterator_init s a)) (bus_keys (fst (BusIterator_init s a))) =
     dict_keys (dicts s a) \<and>
   (BusIterator_has_next s' self \<longleftrightarrow>
      bus_index self < int (length (lists s' (bus_keys self)))) \<and>
   (0 \<le> bus_index self \<and> BusIterator_has_next s' self \<longrightarrow>
      BusIterator_next s' self =
        (Inr (Some (lists s' (bus_keys self) ! nat (bus_index self))),
         self\<lparr>bus_index := bus_index self + 1\<rparr>)) \<and>
   main_loop (snd (BusIterator_init s a)) (Bus (fst (BusIterator_init s a))) =
     (map Some (map fst (dicts s a)), None,
      Bus ((fst (BusIterator_init s a))\<lparr>bus_index := int (length (dicts s a))\<rparr>)) \<and>
   length (fst (main_loop (snd (BusIterator_init s a)) (Bus (fst (BusIterator_init s a))))) =
     length (dicts s a)"
proof -
  let ?it = "fst (BusIterator_init s a)" and ?s = "snd (BusIterator_init s a)"
  have a: "bus_index ?it = 0" and b: "lists ?s (bus_keys ?it) = dict_keys (dicts s a)"
    by (simp_all add: BusIterator_init_result)
  have c: "main_loop ?s (Bus ?it) =
     (map Some (map fst (dicts s a)), None, Bus (?it\<lparr>bus_index := int (length (dicts s a))\<rparr>))"
    using main_loop_bus[of ?it ?s] by (simp add: a b dict_keys_def)
  show ?thesis
    using a b c bus_next_in_range[of self s']
    by (simp add: BusIterator_has_next_def)
qed

text \<open>
  Claim C4 on \<open>{"A": ["x", "y"], "B": []}\<close>: the loop receives \<open>A\<close> and then \<open>B\<close>, the group
  without items.
\<close>

theorem bus_iterator_walks_groups_in_order_witness:
  "0 \<le> bus_index (fst (BusIterator_init example_store 0)) \<and>
   BusIterator_has_next (snd (BusIterator_init example_store 0))
     (fst (BusIterator_init example_store 0)) \<and>
   BusIterator_next (snd (BusIterator_init example_store 0))
     (fst (BusIterator_init example_store 0)) =
     (Inr (Some ''A''), (fst (BusIterator_init example_store 0))\<lparr>bus_index := 1\<rparr>) \<and>
   fst (main_loop (snd (BusIterator_init example_store 0))
     (Bus (fst (BusIterator_init example_store 0)))) = [Some ''A'', Some ''B'']"
proof -
  have h: "0 \<le> bus_index (fst (BusIterator_init example_store 0)) \<and>
     BusIterator_has_next (snd (BusIterator_init example_store 0))
       (fst (BusIterator_init example_store 0))"
    by code_simp
  have k: "lists (snd (BusIterator_init example_store 0))
       (bus_keys (fst (BusIterator_init example_store 0))) = [''A'', ''B'']"
     "dicts example_store 0 = [(''A'', [''x'', ''y'']), (''B'', [])]"
     "bus_index (fst (BusIterator_init example_store 0)) = 0"
    by code_simp+
  from bus_iterator_walks_groups_in_order[of example_store 0
      "snd (BusIterator_init example_store 0)" "fst (BusIterator_init example_store 0)"] h
  show ?thesis by (simp add: k)
qed

subsection \<open>C5\<close>

text \<open>
  Claim C5, as stated: the factory defaults to the sequential kind, falls back to it for
  every kind value outside \<open>{sequential, bus, random}\<close>, and the kind named \<open>random\<close> selects
  the randomly permuted strategy. The tag that \<open>create_iterator\<close> compares with is
  \<open>"random_walk"\<close>: that value lies outside the three names and does not fall back to
  the sequential iterator, and the value \<open>"random"\<close> does not select the random walk.
\<close>

theorem create_iterator_random_is_sequential:
  "''random_walk'' \<notin> {''sequential'', ''bus'', ''random''} \<and>
   \<not> is_Seq (fst (create_iterator rev (snd (CityAttractions_init empty_store))
                  (fst (CityAttractions_init empty_store)) (Some ''random_walk''))) \<and>
   \<not> is_Rnd (fst (create_iterator rev (snd (CityAttractions_init empty_store))
                  (fst (CityAttractions_init empty_store)) (Some ''random'')))"
  by code_simp

text \<open>
  Claim C5, amended: a call without a kind makes a sequential iterator, \<open>"bus"\<close> a bus
  iterator, \<open>"random_walk"\<close> a random walk, and every other value, \<open>"random"\<close> among them,
  a sequential iterator; no value makes the factory fail.
\<close>

theorem create_iterator_kinds:
  "create_iterator shuffle s self None =
     apfst Seq (SequentialIterator_init s (city_attractions self)) \<and>
   create_iterator shuffle s self (Some ''bus'') =
     apfst Bus (BusIterator_init s (city_attractions self)) \<and>
   create_iterator shuffle s self (Some ''random_walk'') =
     apfst Rnd (RandomWalkIterator_init shuffle s (city_attractions self)) \<and>
   (t \<noteq> ''bus'' \<and> t \<noteq> ''random_walk'' \<longrightarrow>
      create_iterator shuffle s self (Some t) =
        apfst Seq (SequentialIterator_init s (city_attractions self)))"
  by (simp add: create_iterator_def apfst_def map_prod_def split: prod.splits)

text \<open>
  The amended claim C5 at the value \<open>"random"\<close>.
\<close>

theorem create_iterator_kinds_witness:
  "''random'' \<noteq> ''bus'' \<and> ''random'' \<noteq> ''random_walk'' \<and>
   create_iterator rev (snd (CityAttractions_init empty_store))
     (fst (CityAttractions_init empty_store)) (Some ''random'') =
   apfst Seq (SequentialIterator_init (snd (CityAttractions_init empty_store))
     (city_attractions (fst (CityAttractions_init empty_store))))"
  using create_iterator_kinds[of rev "snd (CityAttractions_init empty_store)"
      "fst (CityAttractions_init empty_store)" "''random''"]
  by simp

subsection \<open>C6\<close>

text \<open>
  Claim C6: for every strategy kind, \<open>has_next()\<close> changes neither the iterator nor the store,
  so that any number of calls of it in a row give the same answer; and once it has
  answered false, whatever calls of \<open>has_next()\<close> and \<open>next()\<close> follow, the iterator stays as
  it is and no call of \<open>has_next()\<close> answers true.
\<close>

theorem has_next_pure_exhaustion_permanent:
  "iterator_call HasNext (s, it) = (Answer (iterator_has_next s it), (s, it)) \<and>
   iterator_calls (replicate n HasNext) (s, it) =
     (replicate n (Answer (iterator_has_next s it)), (s, it)) \<and>
   (\<not> iterator_has_next s it \<longrightarrow>
      after_calls cs (s, it) = (s, it) \<and>
      \<not> iterator_has_next (fst (after_calls cs (s, it))) (snd (after_calls cs (s, it))) \<and>
      Answer True \<notin> set (fst (iterator_calls cs (s, it))))"
proof (intro conjI impI)
  show "iterator_call HasNext (s, it) = (Answer (iterator_has_next s it), (s, it))"
    by (simp add: iterator_call_def)
  show "iterator_calls (replicate n HasNext) (s, it) =
     (replicate n (Answer (iterator_has_next s it)), (s, it))"
    using iterator_calls_HasNext[of n "(s, it)"] by simp
next
  assume h: "\<not> iterator_has_next s it"
  note e = iterator_calls_exhausted[OF h, of cs]
  show a: "after_calls cs (s, it) = (s, it)" by (simp add: after_calls_def e)
  show "\<not> iterator_has_next (fst (after_calls cs (s, it))) (snd (after_calls cs (s, it)))"
    by (simp add: a h)
  show "Answer True \<notin> set (fst (iterator_calls cs (s, it)))"
    by (auto simp: e split: call.splits)
qed

text \<open>
  Claim C6 on the sequential iterator on \<open>{"A": ["x", "y"], "B": []}\<close>: two calls of
  \<open>has_next()\<close> on the new iterator answer true twice, and after three calls of \<open>next()\<close>
  nothing changes any more.
\<close>

theorem has_next_pure_exhaustion_permanent_witness:
  "\<not> iterator_has_next (fst (after_calls [Next, Next, Next] example_seq))
        (snd (after_calls [Next, Next, Next] example_seq)) \<and>
   after_calls [HasNext, Next, HasNext]
     (fst (after_calls [Next, Next, Next] example_seq),
      snd (after_calls [Next, Next, Next] example_seq)) =
     (fst (after_calls [Next, Next, Next] example_seq),
      snd (after_calls [Next, Next, Next] example_seq)) \<and>
   Answer True \<notin> set (fst (iterator_calls [HasNext, Next, HasNext]
     (fst (after_calls [Next, Next, Next] example_seq),
      snd (after_calls [Next, Next, Next] example_seq)))) \<and>
   iterator_calls (replicate 2 HasNext) example_seq = (replicate 2 (Answer True), example_seq)"
proof -
  have h: "\<not> iterator_has_next (fst (after_calls [Next, Next, Next] example_seq))
        (snd (after_calls [Next, Next, Next] example_seq))"
    by code_simp
  have t: "iterator_has_next (fst example_seq) (snd example_seq)" by code_simp
  from has_next_pure_exhaustion_permanent[of "fst (after_calls [Next, Next, Next] example_seq)"
      "snd (after_calls [Next, Next, Next] example_seq)" 2 "[HasNext, Next, HasNext]"]
    has_next_pure_exhaustion_permanent[of "fst example_seq" "snd example_seq" 2 "[]"] h t
  show ?thesis by (simp del: iterator_calls.simps)
qed

subsection \<open>C7\<close>

text \<open>
  Claim C7: constructing a random walk shuffles a private copy of the list of group names.
  The list the iterator holds is a new one, at a reference no list had before; when the
  shuffle rearranges its argument, as \<open>random.shuffle\<close> does, that list is a permutation of
  the group names of the collection. The constructor leaves every dictionary of the store
  as it was, the one of the collection with its key order and its item lists among them,
  and every list other than the new one; and no sequence of calls of \<open>has_next()\<close> and
  \<open>next()\<close> on the iterator changes the store.
\<close>

theorem random_walk_shuffles_private_copy:
  "(mset (shuffle (dict_keys (dicts s a))) = mset (dict_keys (dicts s a)) \<longrightarrow>
      mset (lists (snd (RandomWalkIterator_init shuffle s a))
              (rw_keys (fst (RandomWalkIterator_init shuffle s a)))) =
      mset (map fst (dicts s a))) \<and>
   rw_attractions (fst (RandomWalkIterator_init shuffle s a)) = a \<and>
   rw_keys (fst (RandomWalkIterator_init shuffle s a)) = list_count s \<and>
   dicts (snd (RandomWalkIterator_init shuffle s a)) = dicts s \<and>
   dict_count (snd (RandomWalkIterator_init shuffle s a)) = dict_count s \<and>
   (r \<noteq> list_count s \<longrightarrow> lists (snd (RandomWalkIterator_init shuffle s a)) r = lists s r) \<and>
   fst (after_calls cs (snd (RandomWalkIterator_init shuffle s a),
                        Rnd (fst (RandomWalkIterator_init shuffle s a)))) =
     snd (RandomWalkIterator_init shuffle s a)"
  by (simp add: RandomWalkIterator_init_result dict_keys_def after_calls_def
      iterator_calls_store)

text \<open>
  Claim C7 on \<open>{"A": ["x", "y"], "B": []}\<close> with the shuffle that reverses: the iterator holds
  \<open>B, A\<close> and the dictionary is as before.
\<close>

theorem random_walk_shuffles_private_copy_witness:
  "mset (rev (dict_keys (dicts example_store 0))) = mset (dict_keys (dicts example_store 0)) \<and>
   lists (snd (RandomWalkIterator_init rev example_store 0))
     (rw_keys (fst (RandomWalkIterator_init rev example_store 0))) = [''B'', ''A''] \<and>
   mset [''B'', ''A''] = mset (map fst (dicts example_store 0)) \<and>
   dicts (snd (RandomWalkIterator_init rev example_store 0)) 0 =
     [(''A'', [''x'', ''y'']), (''B'', [])] \<and>
   (7::nat) \<noteq> list_count example_store \<and>
   lists (snd (RandomWalkIterator_init rev example_store 0)) 7 = lists example_store 7"
proof -
  have p: "mset (rev (dict_keys (dicts example_store 0))) = mset (dict_keys (dicts example_store 0))"
    by simp
  have k: "lists (snd (RandomWalkIterator_init rev example_store 0))
     (rw_keys (fst (RandomWalkIterator_init rev example_store 0))) = [''B'', ''A'']"
    by code_simp
  have d: "dicts example_store 0 = [(''A'', [''x'', ''y'']), (''B'', [])]"
    by code_simp
  have n: "(7::nat) \<noteq> list_count example_store" by code_simp
  from random_walk_shuffles_private_copy[of rev example_store 0 7 "[]"] p k d n
  show ?thesis by simp
qed

subsection \<open>C8\<close>

text \<open>
  Claim C8: for every iterator class, \<open>next()\<close> called where \<open>has_next()\<close> is false raises
  \<open>IndexError\<close>, from the subscript of the key list, and leaves the iterator as it was.
  The bus iterator never returns \<open>None\<close>. A sequential or random-walk \<open>next()\<close> returns
  \<open>None\<close> only when it starts with \<open>has_next()\<close> true and ends with \<open>has_next()\<close> false,
  and then (for a cursor that is not negative) the current group had no exhibit left and
  all the groups after it are empty: the call itself passed over them.
\<close>

theorem next_past_end_IndexError_None_from_empty_tail:
  "(\<not> SequentialIterator_has_next s self \<longrightarrow>
      list_getitem (lists s (seq_keys self)) (seq_current_attraction self) = Inl IndexError \<and>
      SequentialIterator_next s self = (Inl IndexError, self)) \<and>
   (\<not> BusIterator_has_next s bus \<longrightarrow>
      list_getitem (lists s (bus_keys bus)) (bus_index bus) = Inl IndexError \<and>
      BusIterator_next s bus = (Inl IndexError, bus)) \<and>
   (\<not> RandomWalkIterator_has_next s rw \<longrightarrow>
      list_getitem (lists s (rw_keys rw)) (rw_current_attraction rw) = Inl IndexError \<and>
      RandomWalkIterator_next s rw = (Inl IndexError, rw)) \<and>
   fst (BusIterator_next s bus) \<noteq> Inr None \<and>
   (fst (SequentialIterator_next s self) = Inr None \<longrightarrow>
      SequentialIterator_has_next s self \<and>
      \<not> SequentialIterator_has_next s (snd (SequentialIterator_next s self)) \<and>
      (0 \<le> seq_current_attraction self \<longrightarrow>
         no_exhibit_left (dicts s (seq_attractions self)) (lists s (seq_keys self))
           (seq_current_attraction self) (seq_current_exhibit self))) \<and>
   (fst (RandomWalkIterator_next s rw) = Inr None \<longrightarrow>
      RandomWalkIterator_has_next s rw \<and>
      \<not> RandomWalkIterator_has_next s (snd (RandomWalkIterator_next s rw)) \<and>
      (0 \<le> rw_current_attraction rw \<longrightarrow>
         no_exhibit_left (dicts s (rw_attractions rw)) (lists s (rw_keys rw))
           (rw_current_attraction rw) (rw_current_exhibit rw)))"
proof (intro conjI impI)
  assume h: "\<not> SequentialIterator_has_next s self"
  then show "list_getitem (lists s (seq_keys self)) (seq_current_attraction self) = Inl IndexError"
    by (simp add: SequentialIterator_has_next_def list_getitem_past_end)
  from h show "SequentialIterator_next s self = (Inl IndexError, self)"
    by (rule seq_next_exhausted)
next
  assume h: "\<not> BusIterator_has_next s bus"
  then show "list_getitem (lists s (bus_keys bus)) (bus_index bus) = Inl IndexError"
    by (simp add: BusIterator_has_next_def list_getitem_past_end)
  from h show "BusIterator_next s bus = (Inl IndexError, bus)"
    by (rule bus_next_exhausted)
next
  assume h: "\<not> RandomWalkIterator_has_next s rw"
  then show "list_getitem (lists s (rw_keys rw)) (rw_current_attraction rw) = Inl IndexError"
    by (simp add: RandomWalkIterator_has_next_def list_getitem_past_end)
  from h show "RandomWalkIterator_next s rw = (Inl IndexError, rw)"
    by (rule rw_next_exhausted)
next
  show "fst (BusIterator_next s bus) \<noteq> Inr None" by (rule bus_next_not_None)
next
  assume n: "fst (SequentialIterator_next s self) = Inr None"
  from seq_next_None[OF n] show "SequentialIterator_has_next s self" by simp
  from seq_next_None_exhausts[OF n]
  show "\<not> SequentialIterator_has_next s (snd (SequentialIterator_next s self))" .
  assume "0 \<le> seq_current_attraction self"
  from seq_next_None_no_exhibit_left[OF n this]
  show "no_exhibit_left (dicts s (seq_attractions self)) (lists s (seq_keys self))
           (seq_current_attraction self) (seq_current_exhibit self)" .
next
  assume "fst (RandomWalkIterator_next s rw) = Inr None"
  then have n: "fst (SequentialIterator_next s (seq_of_rw rw)) = Inr None"
    by (simp add: rw_next_seq)
  from seq_next_None[OF n] show "RandomWalkIterator_has_next s rw"
    by (simp add: rw_has_next_seq)
  from seq_next_None_exhausts[OF n]
  show "\<not> RandomWalkIterator_has_next s (snd (RandomWalkIterator_next s rw))"
    by (simp add: rw_has_next_seq rw_next_seq)
  assume "0 \<le> rw_current_attraction rw"
  with seq_next_None_no_exhibit_left[OF n]
  show "no_exhibit_left (dicts s (rw_attractions rw)) (lists s (rw_keys rw))
           (rw_current_attraction rw) (rw_current_exhibit rw)" by simp
qed

text \<open>
  Claim C8 on \<open>{"A": ["x", "y"], "B": []}\<close>: past both groups each class raises
  \<open>IndexError\<close>; after the exhibits of \<open>A\<close> the walking classes return \<open>None\<close>.
\<close>

theorem next_past_end_IndexError_None_from_empty_tail_witness:
  "\<not> SequentialIterator_has_next (fst example_seq) all_groups_done \<and>
   SequentialIterator_next (fst example_seq) all_groups_done = (Inl IndexError, all_groups_done) \<and>
   \<not> BusIterator_has_next (fst example_seq) bus_groups_done \<and>
   BusIterator_next (fst example_seq) bus_groups_done = (Inl IndexError, bus_groups_done) \<and>
   \<not> RandomWalkIterator_has_next (fst example_seq) (rw_of_seq all_groups_done) \<and>
   RandomWalkIterator_next (fst example_seq) (rw_of_seq all_groups_done) =
     (Inl IndexError, rw_of_seq all_groups_done) \<and>
   fst (SequentialIterator_next (fst example_seq) items_of_A_done) = Inr None \<and>
   0 \<le> seq_current_attraction items_of_A_done \<and>
   SequentialIterator_has_next (fst example_seq) items_of_A_done \<and>
   no_exhibit_left (dicts (fst example_seq) (seq_attractions items_of_A_done))
     (lists (fst example_seq) (seq_keys items_of_A_done))
     (seq_current_attraction items_of_A_done) (seq_current_exhibit items_of_A_done) \<and>
   fst (RandomWalkIterator_next (fst example_seq) (rw_of_seq items_of_A_done)) = Inr None \<and>
   0 \<le> rw_current_attraction (rw_of_seq items_of_A_done) \<and>
   RandomWalkIterator_has_next (fst example_seq) (rw_of_seq items_of_A_done)"
proof -
  have e: "\<not> SequentialIterator_has_next (fst example_seq) all_groups_done"
    "\<not> BusIterator_has_next (fst example_seq) bus_groups_done"
    "\<not> RandomWalkIterator_has_next (fst example_seq) (rw_of_seq all_groups_done)"
    by code_simp+
  have n: "fst (SequentialIterator_next (fst example_seq) items_of_A_done) = Inr None"
    "0 \<le> seq_current_attraction items_of_A_done"
    "fst (RandomWalkIterator_next (fst example_seq) (rw_of_seq items_of_A_done)) = Inr None"
    "0 \<le> rw_current_attraction (rw_of_seq items_of_A_done)"
    by code_simp+
  from next_past_end_IndexError_None_from_empty_tail
         [where s = "fst example_seq" and self = all_groups_done and bus = bus_groups_done
            and rw = "rw_of_seq all_groups_done"]
       next_past_end_IndexError_None_from_empty_tail
         [where s = "fst example_seq" and self = items_of_A_done and bus = bus_groups_done
            and rw = "rw_of_seq items_of_A_done"]
       e n
  show ?thesis by blast
qed

subsection \<open>C9\<close>

text \<open>
  Claim C9: \<open>SequentialIterator\<close> and \<open>RandomWalkIterator\<close> behave alike over the key list
  they hold. On the same store, a random walk and a sequential iterator with the same
  fields answer \<open>has_next()\<close> alike and return the same from \<open>next()\<close>, field for field; so
  every sequence of calls gets the same replies from both, and the loop of the client
  receives the same values. The constructor of the random walk is that of the sequential
  iterator followed by one shuffle of the new key list.
\<close>

theorem random_walk_refines_sequential:
  "RandomWalkIterator_has_next s (rw_of_seq self) = SequentialIterator_has_next s self \<and>
   RandomWalkIterator_next s (rw_of_seq self) =
     apsnd rw_of_seq (SequentialIterator_next s self) \<and>
   iterator_calls cs (s, Rnd (rw_of_seq self)) =
     apsnd (apsnd as_random_walk) (iterator_calls cs (s, Seq self)) \<and>
   main_loop s (Rnd (rw_of_seq self)) =
     apsnd (apsnd as_random_walk) (main_loop s (Seq self)) \<and>
   RandomWalkIterator_init shuffle s' a =
     (rw_of_seq (fst (SequentialIterator_init s' a)),
      shuffle_in_place shuffle (seq_keys (fst (SequentialIterator_init s' a)))
        (snd (SequentialIterator_init s' a)))"
proof (intro conjI)
  show "RandomWalkIterator_has_next s (rw_of_seq self) = SequentialIterator_has_next s self"
    by (rule rw_has_next_of_seq)
  show "RandomWalkIterator_next s (rw_of_seq self) =
     apsnd rw_of_seq (SequentialIterator_next s self)"
    by (rule rw_next_of_seq)
  show "iterator_calls cs (s, Rnd (rw_of_seq self)) =
     apsnd (apsnd as_random_walk) (iterator_calls cs (s, Seq self))"
    using iterator_calls_as_random_walk[of cs s self] by simp
  show "main_loop s (Rnd (rw_of_seq self)) =
     apsnd (apsnd as_random_walk) (main_loop s (Seq self))"
    by (rule main_loop_as_random_walk)
  show "RandomWalkIterator_init shuffle s' a =
     (rw_of_seq (fst (SequentialIterator_init s' a)),
      shuffle_in_place shuffle (seq_keys (fst (SequentialIterator_init s' a)))
        (snd (SequentialIterator_init s' a)))"
    by (simp add: RandomWalkIterator_init_def SequentialIterator_init_def new_list_def
        rw_of_seq_def Let_def)
qed

subsection \<open>C10\<close>

text \<open>
  Claim C10: every call of \<open>next()\<close> on the sequential and the random strategy terminates.
  Each state lies in the domain of the recursion; the number of self-calls is at most the
  number of groups not yet passed; a self-call is made on the iterator with the group
  cursor moved one further, and returns what the outer call returns; and a group cursor
  between 0 and the number of groups is still so after the call.
\<close>

theorem next_terminates_with_bounded_depth:
  "SequentialIterator_next_dom (s, self) \<and>
   RandomWalkIterator_next_dom (s, rw) \<and>
   SequentialIterator_next_depth s self \<le>
     nat (int (length (lists s (seq_keys self))) - seq_current_attraction self) \<and>
   RandomWalkIterator_next_depth s rw \<le>
     nat (int (length (lists s (rw_keys rw))) - rw_current_attraction rw) \<and>
   (0 < SequentialIterator_next_depth s self \<longrightarrow>
      SequentialIterator_next_depth s self =
        Suc (SequentialIterator_next_depth s (seq_advance self)) \<and>
      SequentialIterator_next s self = SequentialIterator_next s (seq_advance self) \<and>
      seq_current_attraction (seq_advance self) = seq_current_attraction self + 1) \<and>
   (0 \<le> seq_current_attraction self \<and>
    seq_current_attraction self \<le> int (length (lists s (seq_keys self))) \<longrightarrow>
      0 \<le> seq_current_attraction (snd (SequentialIterator_next s self)) \<and>
      seq_current_attraction (snd (SequentialIterator_next s self)) \<le>
        int (length (lists s (seq_keys (snd (SequentialIterator_next s self)))))) \<and>
   (0 \<le> rw_current_attraction rw \<and>
    rw_current_attraction rw \<le> int (length (lists s (rw_keys rw))) \<longrightarrow>
      0 \<le> rw_current_attraction (snd (RandomWalkIterator_next s rw)) \<and>
      rw_current_attraction (snd (RandomWalkIterator_next s rw)) \<le>
        int (length (lists s (rw_keys (snd (RandomWalkIterator_next s rw))))))"
proof (intro conjI impI)
  show "SequentialIterator_next_dom (s, self)" by (rule SequentialIterator_next_terminates)
  show "RandomWalkIterator_next_dom (s, rw)" by (rule RandomWalkIterator_next_terminates)
  show "SequentialIterator_next_depth s self \<le>
     nat (int (length (lists s (seq_keys self))) - seq_current_attraction self)"
    using seq_depth_bound[of s self] by linarith
  show "RandomWalkIterator_next_depth s rw \<le>
     nat (int (length (lists s (rw_keys rw))) - rw_current_attraction rw)"
    using seq_depth_bound[of s "seq_of_rw rw"] by (simp add: rw_depth_seq)
next
  assume p: "0 < SequentialIterator_next_depth s self"
  from seq_depth_positive[OF p]
  show "SequentialIterator_next_depth s self =
        Suc (SequentialIterator_next_depth s (seq_advance self))"
    and "SequentialIterator_next s self = SequentialIterator_next s (seq_advance self)"
    by simp_all
  show "seq_current_attraction (seq_advance self) = seq_current_attraction self + 1"
    by (simp add: seq_advance_def)
next
  assume "0 \<le> seq_current_attraction self \<and>
    seq_current_attraction self \<le> int (length (lists s (seq_keys self)))"
  then have i: "0 \<le> seq_current_attraction (snd (SequentialIterator_next s self)) \<and>
         seq_current_attraction (snd (SequentialIterator_next s self)) \<le>
           int (length (lists s (seq_keys (snd (SequentialIterator_next s self)))))"
    using seq_next_invariant[of self s] by simp
  from i show "0 \<le> seq_current_attraction (snd (SequentialIterator_next s self))" by simp
  from i show "seq_current_attraction (snd (SequentialIterator_next s self)) \<le>
           int (length (lists s (seq_keys (snd (SequentialIterator_next s self)))))" by simp
next
  assume "0 \<le> rw_current_attraction rw \<and>
    rw_current_attraction rw \<le> int (length (lists s (rw_keys rw)))"
  then have i: "0 \<le> seq_current_attraction (snd (SequentialIterator_next s (seq_of_rw rw))) \<and>
         seq_current_attraction (snd (SequentialIterator_next s (seq_of_rw rw))) \<le>
           int (length (lists s (seq_keys (snd (SequentialIterator_next s (seq_of_rw rw))))))"
    using seq_next_invariant[of "seq_of_rw rw" s] by simp
  from i show "0 \<le> rw_current_attraction (snd (RandomWalkIterator_next s rw))"
    by (simp add: rw_next_seq)
  from i show "rw_current_attraction (snd (RandomWalkIterator_next s rw)) \<le>
        int (length (lists s (rw_keys (snd (RandomWalkIterator_next s rw)))))"
    by (simp add: rw_next_seq)
qed

text \<open>
  Claim C10 on \<open>{"A": ["x", "y"], "B": []}\<close> after the exhibits of \<open>A\<close>: one self-call, and
  the cursor ends at 2.
\<close>

theorem next_terminates_with_bounded_depth_witness:
  "0 < SequentialIterator_next_depth (fst example_seq) items_of_A_done \<and>
   SequentialIterator_next_depth (fst example_seq) items_of_A_done = 1 \<and>
   SequentialIterator_next (fst example_seq) items_of_A_done =
     SequentialIterator_next (fst example_seq) (seq_advance items_of_A_done) \<and>
   0 \<le> seq_current_attraction items_of_A_done \<and>
   seq_current_attraction items_of_A_done \<le>
     int (length (lists (fst example_seq) (seq_keys items_of_A_done))) \<and>
   seq_current_attraction (snd (SequentialIterator_next (fst example_seq) items_of_A_done)) = 2 \<and>
   0 \<le> rw_current_attraction (rw_of_seq items_of_A_done) \<and>
   rw_current_attraction (rw_of_seq items_of_A_done) \<le>
     int (length (lists (fst example_seq) (rw_keys (rw_of_seq items_of_A_done)))) \<and>
   rw_current_attraction
     (snd (RandomWalkIterator_next (fst example_seq) (rw_of_seq items_of_A_done))) \<le>
     int (length (lists (fst example_seq) (rw_keys
       (snd (RandomWalkIterator_next (fst example_seq) (rw_of_seq items_of_A_done))))))"
proof -
  have d: "SequentialIterator_next_depth (fst example_seq) items_of_A_done = 1"
    by code_simp
  have a: "0 \<le> seq_current_attraction items_of_A_done \<and>
     seq_current_attraction items_of_A_done \<le>
       int (length (lists (fst example_seq) (seq_keys items_of_A_done)))"
    by code_simp
  have b: "0 \<le> rw_current_attraction (rw_of_seq items_of_A_done) \<and>
     rw_current_attraction (rw_of_seq items_of_A_done) \<le>
       int (length (lists (fst example_seq) (rw_keys (rw_of_seq items_of_A_done))))"
    by code_simp
  have c: "seq_current_attraction
      (snd (SequentialIterator_next (fst example_seq) items_of_A_done)) = 2"
    by code_simp
  from next_terminates_with_bounded_depth[of "fst example_seq" items_of_A_done
      "rw_of_seq items_of_A_done"] d a b c
  show ?thesis by simp
qed

end
